theory Spec2Isabelle
  imports Main "HOL-Library.Word"
begin

unbundle bit_operations_syntax

section \<open>Data model of iplc-sim.c\<close>

text \<open>
  The C types: \<open>uint\<close> is a 32-bit unsigned integer, whose arithmetic wraps; the
  cache counters are \<open>long\<close> (64 bits). The \<open>int\<close> configuration values are kept
  as integers.
\<close>

type_synonym uint = "32 word"
type_synonym long = "64 word"

text \<open>
  \<open>cache_line_t\<close>. The pointers \<open>lru_prev\<close> and \<open>lru_next\<close> of a line only ever
  receive \<open>NULL\<close> or the address of a line of the same set, so a pointer is the
  index of that line in the set's \<open>lines\<close> array, and \<open>NULL\<close> is \<open>None\<close>.
  The \<open>valid\<close> bit is an \<open>int\<close> that only receives 0 and 1.
\<close>

record cache_line =
  valid :: bool
  tag :: uint
  lru_prev :: "nat option"
  lru_next :: "nat option"

text \<open>\<open>cache_set_t\<close>: \<open>lru_head\<close> and \<open>lru_tail\<close> point into \<open>lines\<close> and are never \<open>NULL\<close>.\<close>

record cache_set =
  lines :: "cache_line list"
  lru_head :: nat
  lru_tail :: nat

datatype instruction_type = NOP | RTYPE | LW | SW | BRANCH | JUMP | JAL | SYSCALL

text \<open>
  The union \<open>stage\<close> of \<open>pipeline_t\<close>, with the fields in the order of the structs
  \<open>rtype_t\<close>, \<open>lw_t\<close>, \<open>sw_t\<close>, \<open>branch_t\<close> and \<open>jump_t\<close>. \<open>Stage_zero\<close> is the
  union after \<open>bzero\<close>.
\<close>

datatype stage_union =
    Stage_zero
  | Stage_rtype string int int int
  | Stage_lw uint int int
  | Stage_sw uint int int
  | Stage_branch int int
  | Stage_jump string

record pipeline_t =
  itype :: instruction_type
  instruction_address :: uint
  stage :: stage_union

datatype pipeline_stages = FETCH | DECODE | ALU | MEM | WRITEBACK

text \<open>
  The global variables of the program. \<open>cur_instruction_address\<close> is the global
  \<open>instruction_address\<close> (the record field of that name is the one of
  \<open>pipeline_t\<close>). The array \<open>pipeline[MAX_STAGES]\<close> is indexed by the stage.
\<close>

record sim =
  cache :: "cache_set list"
  cache_index :: int
  cache_blocksize :: int
  cache_blockoffsetbits :: int
  cache_assoc :: int
  cache_miss :: long
  cache_access :: long
  cache_hit :: long
  cur_instruction_address :: uint
  pipeline_cycles :: uint
  instruction_count :: uint
  branch_predict_taken :: uint
  branch_count :: uint
  correct_branch_predictions :: uint
  pipeline :: "pipeline_stages \<Rightarrow> pipeline_t"

definition MAX_CACHE_SIZE :: nat where
  "MAX_CACHE_SIZE = 10240"

definition CACHE_MISS_DELAY :: nat where
  "CACHE_MISS_DELAY = 10"

section \<open>The cache\<close>

text \<open>Writing one pointer field of the line at index \<open>i\<close>.\<close>

definition set_prev :: "cache_line list \<Rightarrow> nat \<Rightarrow> nat option \<Rightarrow> cache_line list" where
  "set_prev ls i p = ls[i := (ls ! i)\<lparr>lru_prev := p\<rparr>]"

definition set_next :: "cache_line list \<Rightarrow> nat \<Rightarrow> nat option \<Rightarrow> cache_line list" where
  "set_next ls i p = ls[i := (ls ! i)\<lparr>lru_next := p\<rparr>]"

text \<open>
  The tail of both LRU functions: \<open>line\<close> becomes the head of the chain.
  \<^verbatim>\<open>
  cache[index].lru_head->lru_next = line;
  line->lru_prev = cache[index].lru_head;
  line->lru_next = NULL;
  cache[index].lru_head = line;
  \<close>
\<close>

definition make_head :: "cache_set \<Rightarrow> nat \<Rightarrow> cache_set" where
  "make_head cs line =
     (let ls1 = set_next (lines cs) (lru_head cs) (Some line);
          ls2 = set_prev ls1 line (Some (lru_head cs));
          ls3 = set_next ls2 line None
      in cs\<lparr>lines := ls3, lru_head := line\<rparr>)"

text \<open>
  \<open>iplc_sim_LRU_replace_on_miss\<close> on the set \<open>cache[index]\<close>: \<open>assoc_entry = -1\<close>
  replaces the line at the tail, any other value fills the unused line at that index.
\<close>

definition LRU_replace_on_miss_set :: "cache_set \<Rightarrow> int \<Rightarrow> uint \<Rightarrow> cache_set" where
  "LRU_replace_on_miss_set cs assoc_entry tg =
     (let line = (if assoc_entry = - 1 then lru_tail cs else nat assoc_entry);
          cs1 = (if assoc_entry = - 1 then
                   (case lru_next (lines cs ! line) of
                      Some nx \<Rightarrow> cs\<lparr>lines := set_prev (lines cs) nx None, lru_tail := nx\<rparr>
                    | None \<Rightarrow> cs)
                 else cs);
          cs2 = cs1\<lparr>lines := (lines cs1)[line := (lines cs1 ! line)\<lparr>valid := True, tag := tg\<rparr>]\<rparr>
      in if line \<noteq> lru_head cs2 then make_head cs2 line else cs2)"

definition iplc_sim_LRU_replace_on_miss :: "sim \<Rightarrow> nat \<Rightarrow> int \<Rightarrow> uint \<Rightarrow> sim" where
  "iplc_sim_LRU_replace_on_miss s index assoc_entry tg =
     s\<lparr>cache := (cache s)[index := LRU_replace_on_miss_set (cache s ! index) assoc_entry tg]\<rparr>"

text \<open>
  \<open>iplc_sim_LRU_update_on_hit\<close> on the set \<open>cache[index]\<close>. Between the reads of
  \<open>line->lru_prev\<close> and \<open>line->lru_next\<close> only \<open>lru_prev\<close> fields are written, and
  the one write that could reach \<open>line\<close> itself stores the value \<open>line->lru_prev\<close>
  already has, so both are read once.
\<close>

definition LRU_update_on_hit_set :: "cache_set \<Rightarrow> nat \<Rightarrow> cache_set" where
  "LRU_update_on_hit_set cs line =
     (case lru_next (lines cs ! line) of
        None \<Rightarrow> cs
      | Some nx \<Rightarrow>
          (let ls1 = set_prev (lines cs) nx (lru_prev (lines cs ! line));
               cs2 = (case lru_prev (ls1 ! line) of
                        Some pv \<Rightarrow> cs\<lparr>lines := set_next ls1 pv (Some nx)\<rparr>
                      | None \<Rightarrow> cs\<lparr>lines := set_prev ls1 nx None, lru_tail := nx\<rparr>)
           in make_head cs2 line))"

definition iplc_sim_LRU_update_on_hit :: "sim \<Rightarrow> nat \<Rightarrow> nat \<Rightarrow> sim" where
  "iplc_sim_LRU_update_on_hit s index assoc_entry =
     s\<lparr>cache := (cache s)[index := LRU_update_on_hit_set (cache s ! index) assoc_entry]\<rparr>"

text \<open>
  The index and the tag of an address, as \<open>iplc_sim_trap_address\<close> computes them:
  \<^verbatim>\<open>
  uint mask = ((1 << cache_index) - 1) << cache_blockoffsetbits;
  uint non_tag_bits = cache_blockoffsetbits + cache_index;
  index = (address & mask) >> cache_blockoffsetbits;
  tag = address >> non_tag_bits;
  \<close>
  The shifts are defined in C for shift counts below the width of the type.
\<close>

definition addr_index :: "sim \<Rightarrow> uint \<Rightarrow> nat" where
  "addr_index s address =
     (let mask = push_bit (nat (cache_blockoffsetbits s)) (push_bit (nat (cache_index s)) 1 - 1)
      in unat (drop_bit (nat (cache_blockoffsetbits s)) (address AND mask)))"

definition addr_tag :: "sim \<Rightarrow> uint \<Rightarrow> uint" where
  "addr_tag s address =
     (let non_tag_bits = nat (cache_blockoffsetbits s) + nat (cache_index s)
      in drop_bit non_tag_bits address)"

text \<open>
  The scan of \<open>iplc_sim_trap_address\<close> over the lines \<open>i, i + 1, ...\<close> of the set,
  with its three exits: a hit, the first line that is not valid, and the end of the set.
\<close>

function trap_scan :: "sim \<Rightarrow> nat \<Rightarrow> uint \<Rightarrow> nat \<Rightarrow> int \<times> sim" where
  "trap_scan s index tg i =
     (if int i < cache_assoc s then
        (if valid (lines (cache s ! index) ! i) then
           (if tag (lines (cache s ! index) ! i) = tg then
              (1, iplc_sim_LRU_update_on_hit (s\<lparr>cache_hit := cache_hit s + 1\<rparr>) index i)
            else trap_scan s index tg (Suc i))
         else
           (0, iplc_sim_LRU_replace_on_miss (s\<lparr>cache_miss := cache_miss s + 1\<rparr>) index (int i) tg))
      else
        (0, iplc_sim_LRU_replace_on_miss (s\<lparr>cache_miss := cache_miss s + 1\<rparr>) index (- 1) tg))"
  by pat_completeness auto
termination
  by (relation "measure (\<lambda>(s, index, tg, i). nat (cache_assoc s) - i)") auto

declare trap_scan.simps [simp del]

definition iplc_sim_trap_address :: "sim \<Rightarrow> uint \<Rightarrow> int \<times> sim" where
  "iplc_sim_trap_address s address =
     trap_scan (s\<lparr>cache_access := cache_access s + 1\<rparr>) (addr_index s address) (addr_tag s address) 0"


section \<open>Initialisation\<close>

datatype sim_error =
    Cache_too_big
  | Malformed_instruction
  | Malformed_rtype
  | Bad_instruction
  | Unknown_instruction

text \<open>
  \<^verbatim>\<open>cache_blockoffsetbits = (int) rint((log( (double) (blocksize * 4) )/ log(2)));\<close>
  \<open>rint\<close> rounds to the nearest integer. For a positive integer \<open>n\<close> the nearest
  integer to \<open>log2 n\<close> is the \<open>k\<close> with \<open>2 ^ (2 * k - 1) < n * n < 2 ^ (2 * k + 1)\<close>
  (there is no tie: \<open>n * n\<close> is never an odd power of two), which \<open>rint_log2\<close>
  computes on integers.
\<close>

fun floor_log2 :: "nat \<Rightarrow> nat" where
  "floor_log2 n = (if n < 2 then 0 else Suc (floor_log2 (n div 2)))"

declare floor_log2.simps [simp del]

definition rint_log2 :: "nat \<Rightarrow> nat" where
  "rint_log2 n = (floor_log2 (n * n) + 1) div 2"

text \<open>
  \<^verbatim>\<open>cache_size = assoc * ( 1 << index ) * ((32 * blocksize) + 33 - index - cache_blockoffsetbits);\<close>
  The product is computed in \<open>int\<close> (32 bits, two's complement) and converted to
  \<open>unsigned long\<close>, which extends the sign.
\<close>

definition cache_size_of :: "int \<Rightarrow> int \<Rightarrow> int \<Rightarrow> int \<Rightarrow> long" where
  "cache_size_of index blocksize assoc bob =
     scast ((word_of_int assoc * push_bit (nat index) 1 *
             (32 * word_of_int blocksize + 33 - word_of_int index - word_of_int bob)) :: 32 word)"

definition empty_line :: cache_line where
  "empty_line = \<lparr>valid = False, tag = 0, lru_prev = None, lru_next = None\<rparr>"

definition initial_cache_set :: "int \<Rightarrow> cache_set" where
  "initial_cache_set assoc =
     \<lparr>lines = replicate (nat assoc) empty_line, lru_head = 0, lru_tail = 0\<rparr>"

text \<open>A stage after \<open>bzero\<close>: \<open>itype\<close> 0 is \<open>NOP\<close>.\<close>

definition zero_stage :: pipeline_t where
  "zero_stage = \<lparr>itype = NOP, instruction_address = 0, stage = Stage_zero\<rparr>"

text \<open>The globals as the program starts: all of them are zero.\<close>

definition globals0 :: sim where
  "globals0 =
     \<lparr>cache = [], cache_index = 0, cache_blocksize = 0, cache_blockoffsetbits = 0,
      cache_assoc = 0, cache_miss = 0, cache_access = 0, cache_hit = 0,
      cur_instruction_address = 0, pipeline_cycles = 0, instruction_count = 0,
      branch_predict_taken = 0, branch_count = 0, correct_branch_predictions = 0,
      pipeline = (\<lambda>_. zero_stage)\<rparr>"

text \<open>\<open>iplc_sim_init\<close>: \<open>exit(-1)\<close> is the error \<open>Cache_too_big\<close>.\<close>

definition iplc_sim_init :: "sim \<Rightarrow> int \<Rightarrow> int \<Rightarrow> int \<Rightarrow> sim_error + sim" where
  "iplc_sim_init s index blocksize assoc =
     (let bob = int (rint_log2 (nat (blocksize * 4)));
          cache_size = cache_size_of index blocksize assoc bob
      in if cache_size > of_nat MAX_CACHE_SIZE then Inl Cache_too_big
         else Inr (s\<lparr>cache := replicate (2 ^ nat index) (initial_cache_set assoc),
                     cache_index := index, cache_blocksize := blocksize,
                     cache_blockoffsetbits := bob, cache_assoc := assoc,
                     pipeline := (\<lambda>_. zero_stage)\<rparr>))"

section \<open>The pipeline\<close>

text \<open>
  The member \<open>data_address\<close> of \<open>stage.lw\<close> and of \<open>stage.sw\<close>, which are at the
  same offset of the union. Every writer of \<open>itype = LW\<close> or \<open>SW\<close> writes that
  member too, so the other cases are not read by the program.
\<close>

fun stage_data_address :: "stage_union \<Rightarrow> uint" where
  "stage_data_address (Stage_lw a _ _) = a"
| "stage_data_address (Stage_sw a _ _) = a"
| "stage_data_address _ = 0"

text \<open>Step 2 of \<open>iplc_sim_push_pipeline_stage\<close>: the value of \<open>branch_taken\<close>.\<close>

definition branch_taken :: "sim \<Rightarrow> uint" where
  "branch_taken s =
     (if instruction_address (pipeline s FETCH) \<noteq> instruction_address (pipeline s DECODE) + 4
         \<and> itype (pipeline s FETCH) \<noteq> NOP
      then 1 else 0)"

text \<open>Step 6: the stages move on and \<open>FETCH\<close> is zeroed.\<close>

definition shift_stages :: "(pipeline_stages \<Rightarrow> pipeline_t) \<Rightarrow> pipeline_stages \<Rightarrow> pipeline_t" where
  "shift_stages p st =
     (case st of
        WRITEBACK \<Rightarrow> p MEM
      | MEM \<Rightarrow> p ALU
      | ALU \<Rightarrow> p DECODE
      | DECODE \<Rightarrow> p FETCH
      | FETCH \<Rightarrow> zero_stage)"

definition iplc_sim_push_pipeline_stage :: "sim \<Rightarrow> sim" where
  "iplc_sim_push_pipeline_stage s =
     (let s1 = (if instruction_address (pipeline s WRITEBACK) \<noteq> 0
                then s\<lparr>instruction_count := instruction_count s + 1\<rparr> else s);
          (cycle_count2 :: uint, s2) =
            (if itype (pipeline s1 DECODE) = BRANCH then
               (if branch_taken s1 = branch_predict_taken s1
                then (1, s1\<lparr>correct_branch_predictions := correct_branch_predictions s1 + 1\<rparr>)
                else (2, s1))
             else (1, s1));
          (cycle_count3, s3) =
            (if itype (pipeline s2 MEM) = LW \<or> itype (pipeline s2 MEM) = SW then
               (let (hit, s') = iplc_sim_trap_address s2 (stage_data_address (stage (pipeline s2 MEM)))
                in (if hit = 0 then of_nat CACHE_MISS_DELAY else cycle_count2, s'))
             else (cycle_count2, s2));
          s4 = s3\<lparr>pipeline_cycles := pipeline_cycles s3 + cycle_count3\<rparr>
      in s4\<lparr>pipeline := shift_stages (pipeline s4)\<rparr>)"

text \<open>The functions \<open>iplc_sim_process_pipeline_*\<close>: one push, then \<open>FETCH\<close> is written.\<close>

definition iplc_sim_process_pipeline_rtype :: "sim \<Rightarrow> string \<Rightarrow> int \<Rightarrow> int \<Rightarrow> int \<Rightarrow> sim" where
  "iplc_sim_process_pipeline_rtype s instruction dest_reg reg1 reg2_or_constant =
     (let s1 = iplc_sim_push_pipeline_stage s
      in s1\<lparr>pipeline := (pipeline s1)(FETCH :=
           \<lparr>itype = RTYPE, instruction_address = cur_instruction_address s1,
            stage = Stage_rtype instruction reg1 reg2_or_constant dest_reg\<rparr>)\<rparr>)"

definition iplc_sim_process_pipeline_lw :: "sim \<Rightarrow> int \<Rightarrow> int \<Rightarrow> uint \<Rightarrow> sim" where
  "iplc_sim_process_pipeline_lw s dest_reg base_reg data_address =
     (let s1 = iplc_sim_push_pipeline_stage s
      in s1\<lparr>pipeline := (pipeline s1)(FETCH :=
           \<lparr>itype = LW, instruction_address = cur_instruction_address s1,
            stage = Stage_lw data_address dest_reg base_reg\<rparr>)\<rparr>)"

definition iplc_sim_process_pipeline_sw :: "sim \<Rightarrow> int \<Rightarrow> int \<Rightarrow> uint \<Rightarrow> sim" where
  "iplc_sim_process_pipeline_sw s src_reg base_reg data_address =
     (let s1 = iplc_sim_push_pipeline_stage s
      in s1\<lparr>pipeline := (pipeline s1)(FETCH :=
           \<lparr>itype = SW, instruction_address = cur_instruction_address s1,
            stage = Stage_sw data_address src_reg base_reg\<rparr>)\<rparr>)"

definition iplc_sim_process_pipeline_branch :: "sim \<Rightarrow> int \<Rightarrow> int \<Rightarrow> sim" where
  "iplc_sim_process_pipeline_branch s reg1 reg2 =
     (let s1 = iplc_sim_push_pipeline_stage s
      in s1\<lparr>branch_count := branch_count s1 + 1,
            pipeline := (pipeline s1)(FETCH :=
              \<lparr>itype = BRANCH, instruction_address = cur_instruction_address s1,
               stage = Stage_branch reg1 reg2\<rparr>)\<rparr>)"

definition iplc_sim_process_pipeline_jump :: "sim \<Rightarrow> string \<Rightarrow> sim" where
  "iplc_sim_process_pipeline_jump s instruction =
     (let s1 = iplc_sim_push_pipeline_stage s
      in s1\<lparr>pipeline := (pipeline s1)(FETCH :=
           \<lparr>itype = (if take 3 instruction = ''jal'' then JAL else JUMP),
            instruction_address = cur_instruction_address s1,
            stage = Stage_jump instruction\<rparr>)\<rparr>)"

definition iplc_sim_process_pipeline_syscall :: "sim \<Rightarrow> sim" where
  "iplc_sim_process_pipeline_syscall s =
     (let s1 = iplc_sim_push_pipeline_stage s
      in s1\<lparr>pipeline := (pipeline s1)(FETCH :=
           \<lparr>itype = SYSCALL, instruction_address = cur_instruction_address s1,
            stage = Stage_zero\<rparr>)\<rparr>)"

definition iplc_sim_process_pipeline_nop :: "sim \<Rightarrow> sim" where
  "iplc_sim_process_pipeline_nop s = iplc_sim_push_pipeline_stage s"

section \<open>The recency chain of a set\<close>

text \<open>
  The chain of a set as a list of line indices, from the tail (least recently used) to
  the head: \<open>nexts\<close> says that the \<open>lru_next\<close> pointers follow the list and end
  with \<open>n\<close>, \<open>prevs\<close> that the \<open>lru_prev\<close> pointers follow it backwards and
  start with \<open>p\<close>.
\<close>

fun first_or :: "nat list \<Rightarrow> nat option \<Rightarrow> nat option" where
  "first_or [] d = d"
| "first_or (x # xs) d = Some x"

fun last_or :: "nat option \<Rightarrow> nat list \<Rightarrow> nat option" where
  "last_or d [] = d"
| "last_or d (x # xs) = last_or (Some x) xs"

fun nexts :: "cache_line list \<Rightarrow> nat list \<Rightarrow> nat option \<Rightarrow> bool" where
  "nexts ls [] n = True"
| "nexts ls (x # xs) n = (lru_next (ls ! x) = first_or xs n \<and> nexts ls xs n)"

fun prevs :: "cache_line list \<Rightarrow> nat option \<Rightarrow> nat list \<Rightarrow> bool" where
  "prevs ls p [] = True"
| "prevs ls p (x # xs) = (lru_prev (ls ! x) = p \<and> prevs ls (Some x) xs)"

lemma first_or_append [simp]: "first_or (xs @ ys) d = first_or xs (first_or ys d)"
  by (cases xs) auto

lemma last_or_append [simp]: "last_or d (xs @ ys) = last_or (last_or d xs) ys"
  by (induction xs arbitrary: d) auto

lemma nexts_append [simp]:
  "nexts ls (xs @ ys) n = (nexts ls xs (first_or ys n) \<and> nexts ls ys n)"
  by (induction xs) auto

lemma prevs_append [simp]:
  "prevs ls p (xs @ ys) = (prevs ls p xs \<and> prevs ls (last_or p xs) ys)"
  by (induction xs arbitrary: p) auto

lemma nth_upd_gen: "ls[i := x] ! j = (if i = j \<and> i < length ls then x else ls ! j)"
proof (cases "i < length ls")
  case True
  then show ?thesis by (simp add: nth_list_update)
next
  case False
  then have "ls[i := x] = ls" by (simp add: not_less list_update_beyond)
  with False show ?thesis by simp
qed

lemma nth_set_prev [simp]:
  "lru_next (set_prev ls i v ! j) = lru_next (ls ! j)"
  "valid (set_prev ls i v ! j) = valid (ls ! j)"
  "tag (set_prev ls i v ! j) = tag (ls ! j)"
  "lru_prev (set_prev ls i v ! j) = (if i = j \<and> i < length ls then v else lru_prev (ls ! j))"
  "length (set_prev ls i v) = length ls"
  by (simp_all add: set_prev_def nth_upd_gen)

lemma nth_set_next [simp]:
  "lru_prev (set_next ls i v ! j) = lru_prev (ls ! j)"
  "valid (set_next ls i v ! j) = valid (ls ! j)"
  "tag (set_next ls i v ! j) = tag (ls ! j)"
  "lru_next (set_next ls i v ! j) = (if i = j \<and> i < length ls then v else lru_next (ls ! j))"
  "length (set_next ls i v) = length ls"
  by (simp_all add: set_next_def nth_upd_gen)

lemma nexts_set_prev [simp]: "nexts (set_prev ls i v) xs n = nexts ls xs n"
  by (induction xs) auto

lemma prevs_set_next [simp]: "prevs (set_next ls i v) p xs = prevs ls p xs"
  by (induction xs arbitrary: p) auto

lemma nexts_set_next_notin [simp]: "i \<notin> set xs \<Longrightarrow> nexts (set_next ls i v) xs n = nexts ls xs n"
  by (induction xs) auto

lemma prevs_set_prev_notin [simp]: "i \<notin> set xs \<Longrightarrow> prevs (set_prev ls i v) p xs = prevs ls p xs"
  by (induction xs arbitrary: p) auto

definition links :: "cache_set \<Rightarrow> nat list \<Rightarrow> bool" where
  "links cs ch \<longleftrightarrow>
     ch \<noteq> [] \<and> distinct ch \<and> (\<forall>x \<in> set ch. x < length (lines cs)) \<and>
     lru_tail cs = hd ch \<and> lru_head cs = last ch \<and>
     nexts (lines cs) ch None \<and> prevs (lines cs) None ch"

lemma make_head_fields [simp]:
  "length (lines (make_head cs w)) = length (lines cs)"
  "valid (lines (make_head cs w) ! j) = valid (lines cs ! j)"
  "tag (lines (make_head cs w) ! j) = tag (lines cs ! j)"
  "lru_tail (make_head cs w) = lru_tail cs"
  "lru_head (make_head cs w) = w"
  by (simp_all add: make_head_def Let_def)

lemma links_make_head:
  assumes "links cs ch" "w \<notin> set ch" "w < length (lines cs)"
  shows "links (make_head cs w) (ch @ [w])"
proof -
  from assms(1) obtain as h where ch: "ch = as @ [h]"
    by (cases ch rule: rev_cases) (auto simp: links_def)
  from assms show ?thesis
    unfolding ch links_def
    by (cases as) (auto simp: make_head_def Let_def)
qed


lemma update_on_hit_fields [simp]:
  "length (lines (LRU_update_on_hit_set cs w)) = length (lines cs)"
  "valid (lines (LRU_update_on_hit_set cs w) ! j) = valid (lines cs ! j)"
  "tag (lines (LRU_update_on_hit_set cs w) ! j) = tag (lines cs ! j)"
  by (simp_all add: LRU_update_on_hit_set_def Let_def split: option.splits)

lemma links_update_on_hit:
  assumes "links cs ch" "w \<in> set ch"
  shows "links (LRU_update_on_hit_set cs w) (remove1 w ch @ [w])"
proof -
  from assms(2) obtain as bs where ch: "ch = as @ w # bs"
    by (auto dest: split_list)
  from assms(1) have d: "w \<notin> set as" "w \<notin> set bs"
    by (auto simp: links_def ch)
  then have r: "remove1 w (as @ w # bs) = as @ bs"
    by (simp add: remove1_append)
  show ?thesis
  proof (cases bs)
    case Nil
    with assms(1) have "lru_next (lines cs ! w) = None"
      by (simp add: links_def ch)
    with assms(1) show ?thesis
      using r by (simp add: LRU_update_on_hit_set_def Nil ch)
  next
    case (Cons nx bs')
    define cs2 where "cs2 =
      (let ls1 = set_prev (lines cs) nx (lru_prev (lines cs ! w))
       in case lru_prev (ls1 ! w) of
            Some pv \<Rightarrow> cs\<lparr>lines := set_next ls1 pv (Some nx)\<rparr>
          | None \<Rightarrow> cs\<lparr>lines := set_prev ls1 nx None, lru_tail := nx\<rparr>)"
    from assms(1) have nx: "lru_next (lines cs ! w) = Some nx"
      by (simp add: links_def ch Cons)
    then have upd: "LRU_update_on_hit_set cs w = make_head cs2 w"
      by (simp add: LRU_update_on_hit_set_def cs2_def Let_def)
    have "links cs2 (as @ bs)"
    proof (cases as rule: rev_cases)
      case Nil
      with assms(1) show ?thesis
        by (auto simp: links_def ch Cons cs2_def Let_def)
    next
      case (snoc as' pv)
      with assms(1) show ?thesis
        by (cases as') (auto simp: links_def ch Cons cs2_def Let_def)
    qed
    moreover have "w \<notin> set (as @ bs)" using d by simp
    moreover have "w < length (lines cs2)"
      using assms(1) by (auto simp: links_def ch cs2_def Let_def split: option.splits)
    ultimately show ?thesis
      unfolding upd ch r by (rule links_make_head)
  qed
qed


lemma nexts_upd_vt [simp]:
  "nexts (ls[i := (ls ! i)\<lparr>valid := a, tag := b\<rparr>]) xs n = nexts ls xs n"
  by (induction xs) (auto simp: nth_upd_gen)

lemma prevs_upd_vt [simp]:
  "prevs (ls[i := (ls ! i)\<lparr>valid := a, tag := b\<rparr>]) p xs = prevs ls p xs"
  by (induction xs arbitrary: p) (auto simp: nth_upd_gen)

lemma replace_length [simp]:
  "length (lines (LRU_replace_on_miss_set cs e tg)) = length (lines cs)"
  by (simp add: LRU_replace_on_miss_set_def Let_def split: option.splits)

lemma replace_cold_fields:
  assumes "n < length (lines cs)"
  shows "valid (lines (LRU_replace_on_miss_set cs (int n) tg) ! j) = (j = n \<or> valid (lines cs ! j))"
    and "tag (lines (LRU_replace_on_miss_set cs (int n) tg) ! j) = (if j = n then tg else tag (lines cs ! j))"
  using assms by (auto simp: LRU_replace_on_miss_set_def Let_def nth_upd_gen)

lemma replace_full_fields:
  assumes "lru_tail cs < length (lines cs)"
  shows "valid (lines (LRU_replace_on_miss_set cs (- 1) tg) ! j) = (j = lru_tail cs \<or> valid (lines cs ! j))"
    and "tag (lines (LRU_replace_on_miss_set cs (- 1) tg) ! j) =
           (if j = lru_tail cs then tg else tag (lines cs ! j))"
  using assms by (auto simp: LRU_replace_on_miss_set_def Let_def nth_upd_gen split: option.splits)

lemma links_replace_cold:
  assumes "links cs ch" "n \<notin> set ch" "n < length (lines cs)"
  shows "links (LRU_replace_on_miss_set cs (int n) tg) (ch @ [n])"
proof -
  define cs2 where "cs2 = cs\<lparr>lines := (lines cs)[n := (lines cs ! n)\<lparr>valid := True, tag := tg\<rparr>]\<rparr>"
  from assms have "n \<noteq> lru_head cs"
    by (auto simp: links_def)
  then have "LRU_replace_on_miss_set cs (int n) tg = make_head cs2 n"
    by (simp add: LRU_replace_on_miss_set_def Let_def cs2_def)
  moreover from assms(1) have "links cs2 ch"
    by (simp add: links_def cs2_def)
  moreover have "n < length (lines cs2)"
    using assms(3) by (simp add: cs2_def)
  ultimately show ?thesis
    using assms(2) by (simp add: links_make_head)
qed

lemma links_replace_seed:
  assumes "lru_head cs = 0" "lru_tail cs = 0" "lru_next (lines cs ! 0) = None"
    "lru_prev (lines cs ! 0) = None" "0 < length (lines cs)"
  shows "links (LRU_replace_on_miss_set cs 0 tg) [0]"
  using assms by (simp add: LRU_replace_on_miss_set_def Let_def links_def nth_upd_gen)

lemma links_replace_full:
  assumes "links cs ch"
  shows "links (LRU_replace_on_miss_set cs (- 1) tg) (tl ch @ [hd ch])"
proof -
  from assms obtain v rest where ch: "ch = v # rest"
    by (cases ch) (auto simp: links_def)
  show ?thesis
  proof (cases rest)
    case Nil
    with assms show ?thesis
      by (simp add: ch LRU_replace_on_miss_set_def Let_def links_def nth_upd_gen)
  next
    case (Cons nx r')
    define cs1 where "cs1 = cs\<lparr>lines := set_prev (lines cs) nx None, lru_tail := nx\<rparr>"
    define cs2 where "cs2 = cs1\<lparr>lines := (lines cs1)[v := (lines cs1 ! v)\<lparr>valid := True, tag := tg\<rparr>]\<rparr>"
    from assms have "lru_next (lines cs ! v) = Some nx" "lru_tail cs = v" "v \<noteq> lru_head cs"
      by (auto simp: links_def ch Cons)
    then have "LRU_replace_on_miss_set cs (- 1) tg = make_head cs2 v"
      by (simp add: LRU_replace_on_miss_set_def Let_def cs2_def cs1_def)
    moreover from assms have "links cs2 rest"
      by (auto simp: links_def ch Cons cs2_def cs1_def)
    moreover from assms have "v < length (lines cs2)" "v \<notin> set rest"
      by (auto simp: links_def ch cs2_def cs1_def)
    ultimately show ?thesis
      by (simp add: ch links_make_head)
  qed
qed


definition tags_of :: "cache_set \<Rightarrow> nat list \<Rightarrow> uint list" where
  "tags_of cs ch = map (\<lambda>i. tag (lines cs ! i)) ch"

definition seeded :: "cache_set \<Rightarrow> bool" where
  "seeded cs \<longleftrightarrow> lru_head cs = 0 \<and> lru_tail cs = 0 \<and>
     lru_next (lines cs ! 0) = None \<and> lru_prev (lines cs ! 0) = None"

definition sinv :: "nat \<Rightarrow> cache_set \<Rightarrow> nat list \<Rightarrow> bool" where
  "sinv k cs ch \<longleftrightarrow>
     length (lines cs) = k \<and> 0 < k \<and> length ch \<le> k \<and> set ch = {0..<length ch} \<and>
     (\<forall>i<k. valid (lines cs ! i) = (i < length ch)) \<and>
     distinct (tags_of cs ch) \<and>
     (if ch = [] then seeded cs else links cs ch)"

definition touch :: "nat \<Rightarrow> 'a list \<Rightarrow> 'a \<Rightarrow> 'a list" where
  "touch k ts t =
     (if t \<in> set ts then remove1 t ts @ [t]
      else if length ts < k then ts @ [t]
      else tl ts @ [t])"

lemma map_remove1_inj:
  "distinct (map f xs) \<Longrightarrow> x \<in> set xs \<Longrightarrow> map f (remove1 x xs) = remove1 (f x) (map f xs)"
  by (induction xs) (auto simp: image_iff)

lemma sinv_distinct: "sinv k cs ch \<Longrightarrow> distinct ch"
  by (auto simp: sinv_def links_def split: if_splits)

lemma sinv_hit:
  assumes "sinv k cs ch" "w < length ch"
  shows "sinv k (LRU_update_on_hit_set cs w) (remove1 w ch @ [w])"
    and "tags_of (LRU_update_on_hit_set cs w) (remove1 w ch @ [w]) =
           touch k (tags_of cs ch) (tag (lines cs ! w))"
proof -
  from assms have w: "w \<in> set ch" and ne: "ch \<noteq> []"
    by (auto simp: sinv_def)
  from assms(1) have d: "distinct ch" by (rule sinv_distinct)
  have s: "set (remove1 w ch @ [w]) = set ch"
    using w d by auto
  have l: "length (remove1 w ch @ [w]) = length ch"
    using w ne by (simp add: length_remove1)
  have t: "tags_of (LRU_update_on_hit_set cs w) xs = tags_of cs xs" for xs
    by (simp add: tags_of_def)
  have t2: "tags_of cs (remove1 w ch @ [w]) = remove1 (tag (lines cs ! w)) (tags_of cs ch) @ [tag (lines cs ! w)]"
    using assms(1) w by (simp add: tags_of_def sinv_def map_remove1_inj)
  have dt: "distinct (tags_of cs (remove1 w ch @ [w]))"
    using assms(1) w unfolding t2 by (auto simp: sinv_def tags_of_def)
  from assms(1) ne w have "links (LRU_update_on_hit_set cs w) (remove1 w ch @ [w])"
    by (simp add: sinv_def links_update_on_hit)
  with assms(1) dt show "sinv k (LRU_update_on_hit_set cs w) (remove1 w ch @ [w])"
    unfolding sinv_def s l t by simp
  from w show "tags_of (LRU_update_on_hit_set cs w) (remove1 w ch @ [w]) =
           touch k (tags_of cs ch) (tag (lines cs ! w))"
    unfolding t t2 by (simp add: touch_def tags_of_def)
qed


lemma sinv_cold:
  assumes "sinv k cs ch" "length ch < k" "tg \<notin> set (tags_of cs ch)"
  shows "sinv k (LRU_replace_on_miss_set cs (int (length ch)) tg) (ch @ [length ch])"
    and "tags_of (LRU_replace_on_miss_set cs (int (length ch)) tg) (ch @ [length ch]) =
           touch k (tags_of cs ch) tg"
proof -
  let ?n = "length ch"
  let ?cs = "LRU_replace_on_miss_set cs (int ?n) tg"
  from assms have n: "?n \<notin> set ch" "?n < length (lines cs)"
    by (auto simp: sinv_def)
  have t: "tags_of ?cs (ch @ [?n]) = tags_of cs ch @ [tg]"
    using n by (auto simp: tags_of_def replace_cold_fields)
  have l: "links ?cs (ch @ [?n])"
  proof (cases "ch = []")
    case True
    with assms(1) n show ?thesis
      by (simp add: sinv_def seeded_def links_replace_seed)
  next
    case False
    with assms(1) n show ?thesis
      by (simp add: sinv_def links_replace_cold)
  qed
  have s: "set (ch @ [?n]) = {0..<length (ch @ [?n])}"
    using assms(1) by (auto simp: sinv_def)
  from assms l n show "sinv k ?cs (ch @ [?n])"
    unfolding sinv_def t s [symmetric]
    by (auto simp: replace_cold_fields sinv_def)
  from assms show "tags_of ?cs (ch @ [?n]) = touch k (tags_of cs ch) tg"
    unfolding t by (simp add: touch_def tags_of_def)
qed

lemma sinv_full:
  assumes "sinv k cs ch" "length ch = k" "tg \<notin> set (tags_of cs ch)"
  shows "sinv k (LRU_replace_on_miss_set cs (- 1) tg) (tl ch @ [hd ch])"
    and "tags_of (LRU_replace_on_miss_set cs (- 1) tg) (tl ch @ [hd ch]) =
           touch k (tags_of cs ch) tg"
proof -
  let ?cs = "LRU_replace_on_miss_set cs (- 1) tg"
  from assms obtain v rest where ch: "ch = v # rest"
    by (cases ch) (auto simp: sinv_def)
  from assms(1) have lk: "links cs ch" and v: "lru_tail cs = v" "v < length (lines cs)" "v \<notin> set rest"
    by (auto simp: sinv_def ch links_def)
  have t: "tags_of ?cs (tl ch @ [hd ch]) = tl (tags_of cs ch) @ [tg]"
    using v by (auto simp: tags_of_def ch replace_full_fields)
  have l: "links ?cs (tl ch @ [hd ch])"
    using lk by (rule links_replace_full)
  have s: "set (tl ch @ [hd ch]) = set ch" "length (tl ch @ [hd ch]) = length ch"
    by (auto simp: ch)
  have d: "distinct (tl (tags_of cs ch) @ [tg])"
    using assms by (auto simp: sinv_def ch tags_of_def)
  from assms(1) l d have "sinv k ?cs (tl ch @ [hd ch])"
    unfolding sinv_def t s
    using v by (auto simp: replace_full_fields ch)
  then show "sinv k ?cs (tl ch @ [hd ch])" .
  from assms show "tags_of ?cs (tl ch @ [hd ch]) = touch k (tags_of cs ch) tg"
    unfolding t by (simp add: touch_def tags_of_def)
qed


lemma trap_scan_skip:
  assumes "\<forall>j. i \<le> j \<and> j < m \<longrightarrow>
             valid (lines (cache s ! index) ! j) \<and> tag (lines (cache s ! index) ! j) \<noteq> tg"
    and "i \<le> m" "int m \<le> cache_assoc s"
  shows "trap_scan s index tg i = trap_scan s index tg m"
  using assms
proof (induction "m - i" arbitrary: i)
  case 0
  then show ?case by simp
next
  case (Suc d)
  then have "i < m" by simp
  with Suc.prems have "trap_scan s index tg i = trap_scan s index tg (Suc i)"
    by (subst trap_scan.simps) auto
  also have "\<dots> = trap_scan s index tg m"
    using Suc.hyps(2) Suc.prems \<open>i < m\<close> by (intro Suc.hyps(1)) auto
  finally show ?case .
qed

lemma sinv_tags_set:
  assumes "sinv k cs ch"
  shows "set (tags_of cs ch) = {tag (lines cs ! j) | j. j < length ch}"
  using assms by (auto simp: sinv_def tags_of_def)

lemma sinv_tag_inj:
  assumes "sinv k cs ch" "i < length ch" "j < length ch" "tag (lines cs ! i) = tag (lines cs ! j)"
  shows "i = j"
proof -
  from assms(1) have "inj_on (\<lambda>i. tag (lines cs ! i)) (set ch)"
    unfolding sinv_def tags_of_def distinct_map by blast
  moreover from assms have "i \<in> set ch" "j \<in> set ch"
    by (auto simp: sinv_def)
  ultimately show ?thesis
    using assms(4) by (auto dest: inj_onD)
qed

lemma sinv_valid: "sinv k cs ch \<Longrightarrow> j < length ch \<Longrightarrow> valid (lines cs ! j)"
  by (simp add: sinv_def)

lemma sinv_invalid: "sinv k cs ch \<Longrightarrow> length ch \<le> j \<Longrightarrow> j < k \<Longrightarrow> \<not> valid (lines cs ! j)"
  by (simp add: sinv_def)

lemma sinv_length: "sinv k cs ch \<Longrightarrow> length ch \<le> k"
  by (simp add: sinv_def)

lemma trap_scan_hit:
  assumes "sinv k (cache s ! index) ch" "cache_assoc s = int k" "w < length ch"
    and "tag (lines (cache s ! index) ! w) = tg"
  shows "trap_scan s index tg 0 =
           (1, iplc_sim_LRU_update_on_hit (s\<lparr>cache_hit := cache_hit s + 1\<rparr>) index w)"
proof -
  have "valid (lines (cache s ! index) ! j) \<and> tag (lines (cache s ! index) ! j) \<noteq> tg"
    if "j < w" for j
  proof -
    from that assms(3) have j: "j < length ch" by simp
    with assms(1) have "valid (lines (cache s ! index) ! j)" by (rule sinv_valid)
    moreover have "tag (lines (cache s ! index) ! j) \<noteq> tg"
      using sinv_tag_inj [OF assms(1) j assms(3)] that assms(4) by (metis less_irrefl)
    ultimately show ?thesis by simp
  qed
  moreover from assms(2,3) sinv_length [OF assms(1)] have w: "int w < cache_assoc s"
    by simp
  ultimately have "trap_scan s index tg 0 = trap_scan s index tg w"
    by (intro trap_scan_skip) auto
  also have "\<dots> = (1, iplc_sim_LRU_update_on_hit (s\<lparr>cache_hit := cache_hit s + 1\<rparr>) index w)"
    using w assms(4) sinv_valid [OF assms(1,3)] by (subst trap_scan.simps) simp
  finally show ?thesis .
qed

lemma sinv_miss_scan:
  assumes "sinv k cs ch" "tg \<notin> set (tags_of cs ch)" "j < length ch"
  shows "valid (lines cs ! j) \<and> tag (lines cs ! j) \<noteq> tg"
proof -
  from assms(1,3) have "valid (lines cs ! j)" by (rule sinv_valid)
  moreover from assms(3) have "tag (lines cs ! j) \<in> set (tags_of cs ch)"
    unfolding sinv_tags_set [OF assms(1)] by blast
  ultimately show ?thesis using assms(2) by auto
qed

lemma trap_scan_cold:
  assumes "sinv k (cache s ! index) ch" "cache_assoc s = int k" "length ch < k"
    and "tg \<notin> set (tags_of (cache s ! index) ch)"
  shows "trap_scan s index tg 0 =
           (0, iplc_sim_LRU_replace_on_miss (s\<lparr>cache_miss := cache_miss s + 1\<rparr>) index (int (length ch)) tg)"
proof -
  have "\<forall>j. 0 \<le> j \<and> j < length ch \<longrightarrow>
          valid (lines (cache s ! index) ! j) \<and> tag (lines (cache s ! index) ! j) \<noteq> tg"
    using sinv_miss_scan [OF assms(1,4)] by blast
  moreover from assms have "int (length ch) \<le> cache_assoc s"
    by simp
  ultimately have "trap_scan s index tg 0 = trap_scan s index tg (length ch)"
    by (intro trap_scan_skip) auto
  also from assms have "\<dots> =
      (0, iplc_sim_LRU_replace_on_miss (s\<lparr>cache_miss := cache_miss s + 1\<rparr>) index (int (length ch)) tg)"
    using sinv_invalid [OF assms(1) le_refl assms(3)] by (subst trap_scan.simps) simp
  finally show ?thesis .
qed

lemma trap_scan_full:
  assumes "sinv k (cache s ! index) ch" "cache_assoc s = int k" "length ch = k"
    and "tg \<notin> set (tags_of (cache s ! index) ch)"
  shows "trap_scan s index tg 0 =
           (0, iplc_sim_LRU_replace_on_miss (s\<lparr>cache_miss := cache_miss s + 1\<rparr>) index (- 1) tg)"
proof -
  have "\<forall>j. 0 \<le> j \<and> j < length ch \<longrightarrow>
          valid (lines (cache s ! index) ! j) \<and> tag (lines (cache s ! index) ! j) \<noteq> tg"
    using sinv_miss_scan [OF assms(1,4)] by blast
  moreover from assms have "int (length ch) \<le> cache_assoc s"
    by simp
  ultimately have "trap_scan s index tg 0 = trap_scan s index tg (length ch)"
    by (intro trap_scan_skip) auto
  also from assms have "\<dots> =
      (0, iplc_sim_LRU_replace_on_miss (s\<lparr>cache_miss := cache_miss s + 1\<rparr>) index (- 1) tg)"
    by (subst trap_scan.simps) simp
  finally show ?thesis .
qed

section \<open>Probes and the rest of the state\<close>

lemma trap_scan_frame:
  "pipeline (snd (trap_scan s index tg i)) = pipeline s"
  "pipeline_cycles (snd (trap_scan s index tg i)) = pipeline_cycles s"
  "instruction_count (snd (trap_scan s index tg i)) = instruction_count s"
  "branch_count (snd (trap_scan s index tg i)) = branch_count s"
  "branch_predict_taken (snd (trap_scan s index tg i)) = branch_predict_taken s"
  "correct_branch_predictions (snd (trap_scan s index tg i)) = correct_branch_predictions s"
  "cur_instruction_address (snd (trap_scan s index tg i)) = cur_instruction_address s"
  "cache_index (snd (trap_scan s index tg i)) = cache_index s"
  "cache_blocksize (snd (trap_scan s index tg i)) = cache_blocksize s"
  "cache_blockoffsetbits (snd (trap_scan s index tg i)) = cache_blockoffsetbits s"
  "cache_assoc (snd (trap_scan s index tg i)) = cache_assoc s"
  "cache_access (snd (trap_scan s index tg i)) = cache_access s"
  by (induction s index tg i rule: trap_scan.induct;
      subst trap_scan.simps;
      simp add: iplc_sim_LRU_update_on_hit_def iplc_sim_LRU_replace_on_miss_def)+


lemma trap_scan_cache_only:
  assumes "cache s' = cache s" "cache_assoc s' = cache_assoc s"
  shows "fst (trap_scan s' index tg i) = fst (trap_scan s index tg i) \<and>
         cache (snd (trap_scan s' index tg i)) = cache (snd (trap_scan s index tg i))"
  using assms
proof (induction s index tg i rule: trap_scan.induct)
  case (1 s index tg i)
  then show ?case
    by (simp add: trap_scan.simps [of s index tg i] trap_scan.simps [of s' index tg i]
        iplc_sim_LRU_update_on_hit_def iplc_sim_LRU_replace_on_miss_def)
qed

lemma trap_address_cache_only:
  assumes "cache s' = cache s" "cache_assoc s' = cache_assoc s"
    "cache_index s' = cache_index s" "cache_blockoffsetbits s' = cache_blockoffsetbits s"
  shows "fst (iplc_sim_trap_address s' a) = fst (iplc_sim_trap_address s a)"
    and "cache (snd (iplc_sim_trap_address s' a)) = cache (snd (iplc_sim_trap_address s a))"
  using assms
    trap_scan_cache_only [of "s'\<lparr>cache_access := cache_access s' + 1\<rparr>"
      "s\<lparr>cache_access := cache_access s + 1\<rparr>" "addr_index s a" "addr_tag s a" 0]
  by (simp_all add: iplc_sim_trap_address_def addr_index_def addr_tag_def)

lemma trap_address_frame:
  "pipeline (snd (iplc_sim_trap_address s a)) = pipeline s"
  "pipeline_cycles (snd (iplc_sim_trap_address s a)) = pipeline_cycles s"
  "instruction_count (snd (iplc_sim_trap_address s a)) = instruction_count s"
  "branch_count (snd (iplc_sim_trap_address s a)) = branch_count s"
  "branch_predict_taken (snd (iplc_sim_trap_address s a)) = branch_predict_taken s"
  "correct_branch_predictions (snd (iplc_sim_trap_address s a)) = correct_branch_predictions s"
  "cur_instruction_address (snd (iplc_sim_trap_address s a)) = cur_instruction_address s"
  "cache_index (snd (iplc_sim_trap_address s a)) = cache_index s"
  "cache_blocksize (snd (iplc_sim_trap_address s a)) = cache_blocksize s"
  "cache_blockoffsetbits (snd (iplc_sim_trap_address s a)) = cache_blockoffsetbits s"
  "cache_assoc (snd (iplc_sim_trap_address s a)) = cache_assoc s"
  "cache_access (snd (iplc_sim_trap_address s a)) = cache_access s + 1"
  by (simp_all add: iplc_sim_trap_address_def trap_scan_frame)

lemma trap_scan_counters:
  "cache_hit (snd (trap_scan s index tg i)) =
     cache_hit s + (if fst (trap_scan s index tg i) = 0 then 0 else 1) \<and>
   cache_miss (snd (trap_scan s index tg i)) =
     cache_miss s + (if fst (trap_scan s index tg i) = 0 then 1 else 0) \<and>
   (fst (trap_scan s index tg i) = 0 \<or> fst (trap_scan s index tg i) = 1)"
proof (induction s index tg i rule: trap_scan.induct)
  case (1 s index tg i)
  then show ?case
    by (cases "int i < cache_assoc s \<and> valid (lines (cache s ! index) ! i)
                 \<and> tag (lines (cache s ! index) ! i) \<noteq> tg")
       (simp_all add: trap_scan.simps [of s index tg i]
          iplc_sim_LRU_update_on_hit_def iplc_sim_LRU_replace_on_miss_def)
qed

lemma trap_address_counters:
  "cache_hit (snd (iplc_sim_trap_address s a)) =
     cache_hit s + (if fst (iplc_sim_trap_address s a) = 0 then 0 else 1)"
  "cache_miss (snd (iplc_sim_trap_address s a)) =
     cache_miss s + (if fst (iplc_sim_trap_address s a) = 0 then 1 else 0)"
  "fst (iplc_sim_trap_address s a) = 0 \<or> fst (iplc_sim_trap_address s a) = 1"
  using trap_scan_counters [of "s\<lparr>cache_access := cache_access s + 1\<rparr>" "addr_index s a" "addr_tag s a" 0]
  by (simp_all add: iplc_sim_trap_address_def)

lemma trap_address_upd [simp]:
  "fst (iplc_sim_trap_address (s\<lparr>instruction_count := x\<rparr>) a) = fst (iplc_sim_trap_address s a)"
  "fst (iplc_sim_trap_address (s\<lparr>correct_branch_predictions := y\<rparr>) a) = fst (iplc_sim_trap_address s a)"
  "cache (snd (iplc_sim_trap_address (s\<lparr>instruction_count := x\<rparr>) a)) =
     cache (snd (iplc_sim_trap_address s a))"
  "cache (snd (iplc_sim_trap_address (s\<lparr>correct_branch_predictions := y\<rparr>) a)) =
     cache (snd (iplc_sim_trap_address s a))"
  by (rule trap_address_cache_only; simp)+

definition advance_probe :: "sim \<Rightarrow> uint option" where
  "advance_probe s =
     (if itype (pipeline s MEM) = LW \<or> itype (pipeline s MEM) = SW
      then Some (stage_data_address (stage (pipeline s MEM))) else None)"

lemma push_stage_fields:
  "pipeline (iplc_sim_push_pipeline_stage s) = shift_stages (pipeline s)"
  "instruction_count (iplc_sim_push_pipeline_stage s) =
     instruction_count s + (if instruction_address (pipeline s WRITEBACK) \<noteq> 0 then 1 else 0)"
  "correct_branch_predictions (iplc_sim_push_pipeline_stage s) =
     correct_branch_predictions s +
       (if itype (pipeline s DECODE) = BRANCH \<and> branch_taken s = branch_predict_taken s then 1 else 0)"
  "branch_count (iplc_sim_push_pipeline_stage s) = branch_count s"
  "branch_predict_taken (iplc_sim_push_pipeline_stage s) = branch_predict_taken s"
  "cur_instruction_address (iplc_sim_push_pipeline_stage s) = cur_instruction_address s"
  "cache_index (iplc_sim_push_pipeline_stage s) = cache_index s"
  "cache_blocksize (iplc_sim_push_pipeline_stage s) = cache_blocksize s"
  "cache_blockoffsetbits (iplc_sim_push_pipeline_stage s) = cache_blockoffsetbits s"
  "cache_assoc (iplc_sim_push_pipeline_stage s) = cache_assoc s"
  by (simp_all add: iplc_sim_push_pipeline_stage_def Let_def split_beta branch_taken_def
      trap_address_frame)

lemma push_stage_cache:
  "cache (iplc_sim_push_pipeline_stage s) =
     (case advance_probe s of None \<Rightarrow> cache s | Some a \<Rightarrow> cache (snd (iplc_sim_trap_address s a)))"
  "cache_access (iplc_sim_push_pipeline_stage s) =
     (case advance_probe s of None \<Rightarrow> cache_access s | Some a \<Rightarrow> cache_access s + 1)"
  by (simp_all add: iplc_sim_push_pipeline_stage_def Let_def split_beta advance_probe_def
      trap_address_frame)

text \<open>The data access of one advance misses the cache.\<close>

definition mem_miss :: "sim \<Rightarrow> bool" where
  "mem_miss s \<longleftrightarrow>
     (itype (pipeline s MEM) = LW \<or> itype (pipeline s MEM) = SW) \<and>
     fst (iplc_sim_trap_address s (stage_data_address (stage (pipeline s MEM)))) = 0"

section \<open>Cycle accounting of one advance\<close>

text \<open>
  C2. One call of \<open>iplc_sim_push_pipeline_stage\<close> adds to \<open>pipeline_cycles\<close>: 10 when
  \<open>MEM\<close> holds \<open>LW\<close> or \<open>SW\<close> and its data address misses the cache; otherwise 2
  when \<open>DECODE\<close> holds \<open>BRANCH\<close> and \<open>taken\<close> differs from \<open>branch_predict_taken\<close>,
  where \<open>taken\<close> is 1 when the address in \<open>FETCH\<close> is not the address in \<open>DECODE\<close>
  plus 4 and \<open>FETCH\<close> is not a \<open>NOP\<close>; otherwise 1. The two penalties do not add
  up. And \<open>correct_branch_predictions\<close> grows by one exactly when \<open>DECODE\<close> holds
  \<open>BRANCH\<close> and \<open>taken\<close> equals \<open>branch_predict_taken\<close>.
\<close>

theorem push_pipeline_stage_cycles:
  "pipeline_cycles (iplc_sim_push_pipeline_stage s) =
     pipeline_cycles s +
       (if mem_miss s then 10
        else if itype (pipeline s DECODE) = BRANCH \<and>
                (if instruction_address (pipeline s FETCH) \<noteq> instruction_address (pipeline s DECODE) + 4
                    \<and> itype (pipeline s FETCH) \<noteq> NOP then 1 else 0) \<noteq> branch_predict_taken s
        then 2 else 1)
   \<and> correct_branch_predictions (iplc_sim_push_pipeline_stage s) =
     correct_branch_predictions s +
       (if itype (pipeline s DECODE) = BRANCH \<and>
           (if instruction_address (pipeline s FETCH) \<noteq> instruction_address (pipeline s DECODE) + 4
               \<and> itype (pipeline s FETCH) \<noteq> NOP then 1 else 0) = branch_predict_taken s
        then 1 else 0)"
  by (simp add: iplc_sim_push_pipeline_stage_def Let_def mem_miss_def branch_taken_def
      CACHE_MISS_DELAY_def split_beta trap_address_frame)


section \<open>Probes keep the cache well formed\<close>

lemma addr_index_eq:
  "addr_index s a =
     unat (drop_bit (nat (cache_blockoffsetbits s)) a AND (push_bit (nat (cache_index s)) 1 - 1))"
proof -
  have "drop_bit n (a AND push_bit n m) = drop_bit n a AND m" for n and m :: uint
    by (rule bit_word_eqI) (auto simp: bit_simps dest: bit_imp_le_length)
  then show ?thesis
    by (simp add: addr_index_def Let_def)
qed

lemma addr_index_less: "addr_index s a < 2 ^ nat (cache_index s)"
proof -
  have "push_bit n 1 - 1 = (mask n :: uint)" for n
    by (simp add: mask_eq_exp_minus_1)
  then have "addr_index s a = unat (take_bit (nat (cache_index s)) (drop_bit (nat (cache_blockoffsetbits s)) a))"
    by (simp add: addr_index_eq take_bit_eq_mask)
  also have "\<dots> < 2 ^ nat (cache_index s)"
    by (simp add: unsigned_take_bit_eq)
  finally show ?thesis .
qed

text \<open>
  The invariant of the cache: every set has its \<open>assoc\<close> lines and a chain \<open>ch\<close> as
  \<open>sinv\<close> describes it, and there are \<open>2 ^ cache_index\<close> sets.
\<close>

definition cache_ok :: "sim \<Rightarrow> bool" where
  "cache_ok s \<longleftrightarrow>
     0 \<le> cache_index s \<and> 1 \<le> cache_assoc s \<and>
     length (cache s) = 2 ^ nat (cache_index s) \<and>
     (\<forall>idx < length (cache s). \<exists>ch. sinv (nat (cache_assoc s)) (cache s ! idx) ch)"

lemma trap_address_hit:
  assumes "sinv (nat (cache_assoc s)) (cache s ! addr_index s a) ch" "1 \<le> cache_assoc s"
    and "w < length ch" "tag (lines (cache s ! addr_index s a) ! w) = addr_tag s a"
  shows "fst (iplc_sim_trap_address s a) = 1"
    and "cache (snd (iplc_sim_trap_address s a)) =
           (cache s)[addr_index s a := LRU_update_on_hit_set (cache s ! addr_index s a) w]"
  using assms
    trap_scan_hit [of "nat (cache_assoc s)" "s\<lparr>cache_access := cache_access s + 1\<rparr>"
      "addr_index s a" ch w "addr_tag s a"]
  by (simp_all add: iplc_sim_trap_address_def iplc_sim_LRU_update_on_hit_def)

lemma trap_address_cold:
  assumes "sinv (nat (cache_assoc s)) (cache s ! addr_index s a) ch" "1 \<le> cache_assoc s"
    and "length ch < nat (cache_assoc s)" "addr_tag s a \<notin> set (tags_of (cache s ! addr_index s a) ch)"
  shows "fst (iplc_sim_trap_address s a) = 0"
    and "cache (snd (iplc_sim_trap_address s a)) =
           (cache s)[addr_index s a :=
              LRU_replace_on_miss_set (cache s ! addr_index s a) (int (length ch)) (addr_tag s a)]"
  using assms
    trap_scan_cold [of "nat (cache_assoc s)" "s\<lparr>cache_access := cache_access s + 1\<rparr>"
      "addr_index s a" ch "addr_tag s a"]
  by (simp_all add: iplc_sim_trap_address_def iplc_sim_LRU_replace_on_miss_def)

lemma trap_address_full:
  assumes "sinv (nat (cache_assoc s)) (cache s ! addr_index s a) ch" "1 \<le> cache_assoc s"
    and "length ch = nat (cache_assoc s)" "addr_tag s a \<notin> set (tags_of (cache s ! addr_index s a) ch)"
  shows "fst (iplc_sim_trap_address s a) = 0"
    and "cache (snd (iplc_sim_trap_address s a)) =
           (cache s)[addr_index s a :=
              LRU_replace_on_miss_set (cache s ! addr_index s a) (- 1) (addr_tag s a)]"
  using assms
    trap_scan_full [of "nat (cache_assoc s)" "s\<lparr>cache_access := cache_access s + 1\<rparr>"
      "addr_index s a" ch "addr_tag s a"]
  by (simp_all add: iplc_sim_trap_address_def iplc_sim_LRU_replace_on_miss_def)


lemma trap_address_sinv:
  assumes "cache_ok s" "sinv (nat (cache_assoc s)) (cache s ! addr_index s a) ch"
  shows "\<exists>ch'. sinv (nat (cache_assoc s)) (cache (snd (iplc_sim_trap_address s a)) ! addr_index s a) ch' \<and>
           tags_of (cache (snd (iplc_sim_trap_address s a)) ! addr_index s a) ch' =
             touch (nat (cache_assoc s)) (tags_of (cache s ! addr_index s a) ch) (addr_tag s a) \<and>
           length ch \<le> length ch' \<and>
           (addr_tag s a \<notin> set (tags_of (cache s ! addr_index s a) ch) \<and> length ch < nat (cache_assoc s)
              \<longrightarrow> ch' = ch @ [length ch])"
    and "fst (iplc_sim_trap_address s a) =
           (if addr_tag s a \<in> set (tags_of (cache s ! addr_index s a) ch) then 1 else 0)"
    and "length (cache (snd (iplc_sim_trap_address s a))) = length (cache s)"
    and "\<forall>j. j \<noteq> addr_index s a \<longrightarrow> cache (snd (iplc_sim_trap_address s a)) ! j = cache s ! j"
proof -
  let ?k = "nat (cache_assoc s)"
  let ?idx = "addr_index s a"
  let ?tg = "addr_tag s a"
  let ?cs = "cache s ! ?idx"
  let ?r = "iplc_sim_trap_address s a"
  from assms(1) have a1: "1 \<le> cache_assoc s" and idx: "?idx < length (cache s)"
    using addr_index_less [of s a] by (simp_all add: cache_ok_def)
  have "(\<exists>ch'. sinv ?k (cache (snd ?r) ! ?idx) ch' \<and>
           tags_of (cache (snd ?r) ! ?idx) ch' = touch ?k (tags_of ?cs ch) ?tg \<and>
           length ch \<le> length ch' \<and>
           (?tg \<notin> set (tags_of ?cs ch) \<and> length ch < ?k \<longrightarrow> ch' = ch @ [length ch])) \<and>
        fst ?r = (if ?tg \<in> set (tags_of ?cs ch) then 1 else 0) \<and>
        length (cache (snd ?r)) = length (cache s) \<and>
        (\<forall>j. j \<noteq> ?idx \<longrightarrow> cache (snd ?r) ! j = cache s ! j)"
  proof (cases "?tg \<in> set (tags_of ?cs ch)")
    case True
    then obtain w where w: "w < length ch" "tag (lines ?cs ! w) = ?tg"
      unfolding sinv_tags_set [OF assms(2)] by auto
    note h = trap_address_hit [OF assms(2) a1 w]
    have "length ch \<le> length (remove1 w ch @ [w])"
      by (simp add: length_remove1) arith
    with True idx h sinv_hit [OF assms(2) w(1)] w(2) show ?thesis
      by (intro conjI exI [of _ "remove1 w ch @ [w]"]) (simp_all del: length_append)
  next
    case False
    show ?thesis
    proof (cases "length ch < ?k")
      case True
      note h = trap_address_cold [OF assms(2) a1 True False]
      from False True idx h sinv_cold [OF assms(2) True False] show ?thesis
        by (intro conjI exI [of _ "ch @ [length ch]"]) simp_all
    next
      case False
      with sinv_length [OF assms(2)] have full: "length ch = ?k" by simp
      note h = trap_address_full [OF assms(2) a1 full \<open>?tg \<notin> set (tags_of ?cs ch)\<close>]
      have "length ch \<le> length (tl ch @ [hd ch])" by simp
      with \<open>?tg \<notin> set (tags_of ?cs ch)\<close> False idx h
        sinv_full [OF assms(2) full \<open>?tg \<notin> set (tags_of ?cs ch)\<close>] show ?thesis
        by (intro conjI exI [of _ "tl ch @ [hd ch]"]) (simp_all del: length_append)
    qed
  qed
  then show "\<exists>ch'. sinv ?k (cache (snd ?r) ! ?idx) ch' \<and>
           tags_of (cache (snd ?r) ! ?idx) ch' = touch ?k (tags_of ?cs ch) ?tg \<and>
           length ch \<le> length ch' \<and>
           (?tg \<notin> set (tags_of ?cs ch) \<and> length ch < ?k \<longrightarrow> ch' = ch @ [length ch])"
    and "fst ?r = (if ?tg \<in> set (tags_of ?cs ch) then 1 else 0)"
    and "length (cache (snd ?r)) = length (cache s)"
    and "\<forall>j. j \<noteq> ?idx \<longrightarrow> cache (snd ?r) ! j = cache s ! j"
    by blast+
qed

lemma cache_ok_trap_address:
  assumes "cache_ok s"
  shows "cache_ok (snd (iplc_sim_trap_address s a))"
proof -
  let ?s' = "snd (iplc_sim_trap_address s a)"
  from assms have idx: "addr_index s a < length (cache s)"
    using addr_index_less [of s a] by (simp add: cache_ok_def)
  with assms obtain ch where ch: "sinv (nat (cache_assoc s)) (cache s ! addr_index s a) ch"
    by (auto simp: cache_ok_def)
  note t = trap_address_sinv [OF assms ch]
  have "\<exists>ch'. sinv (nat (cache_assoc s)) (cache ?s' ! j) ch'" if "j < length (cache s)" for j
  proof (cases "j = addr_index s a")
    case True
    with t(1) show ?thesis by blast
  next
    case False
    with t(4) assms that show ?thesis by (simp add: cache_ok_def)
  qed
  with assms t(3) show ?thesis
    by (simp add: cache_ok_def trap_address_frame)
qed


text \<open>
  \<open>main\<close> stores its fourth argument in \<open>branch_predict_taken\<close> before it calls
  \<open>iplc_sim_init\<close>. A probe is one call of \<open>iplc_sim_trap_address\<close>; \<open>probes\<close> runs a
  sequence of them.
\<close>

definition startup :: "uint \<Rightarrow> sim" where
  "startup bpt = globals0\<lparr>branch_predict_taken := bpt\<rparr>"

definition probes :: "sim \<Rightarrow> uint list \<Rightarrow> sim" where
  "probes s as = foldl (\<lambda>s a. snd (iplc_sim_trap_address s a)) s as"

lemma probes_simps [simp]:
  "probes s [] = s"
  "probes s (a # as) = probes (snd (iplc_sim_trap_address s a)) as"
  "probes s (as @ [a]) = snd (iplc_sim_trap_address (probes s as) a)"
  by (simp_all add: probes_def)

lemma sinv_initial: "1 \<le> assoc \<Longrightarrow> sinv (nat assoc) (initial_cache_set assoc) []"
  by (simp add: sinv_def initial_cache_set_def seeded_def empty_line_def tags_of_def)

lemma init_fields:
  assumes "iplc_sim_init g index blocksize assoc = Inr s"
  shows "cache s = replicate (2 ^ nat index) (initial_cache_set assoc)"
    and "cache_index s = index" "cache_assoc s = assoc" "cache_blocksize s = blocksize"
    and "cache_blockoffsetbits s = int (rint_log2 (nat (blocksize * 4)))"
    and "pipeline s = (\<lambda>_. zero_stage)"
    and "cache_access s = cache_access g" "cache_hit s = cache_hit g" "cache_miss s = cache_miss g"
    and "pipeline_cycles s = pipeline_cycles g" "instruction_count s = instruction_count g"
    and "branch_count s = branch_count g" "branch_predict_taken s = branch_predict_taken g"
    and "correct_branch_predictions s = correct_branch_predictions g"
  using assms by (auto simp: iplc_sim_init_def Let_def split: if_splits)

lemma init_cache_ok:
  assumes "iplc_sim_init g index blocksize assoc = Inr s" "0 \<le> index" "1 \<le> assoc"
  shows "cache_ok s"
  using assms(2,3) sinv_initial [OF assms(3)]
  by (auto simp: cache_ok_def init_fields [OF assms(1)])

lemma probes_cache_ok: "cache_ok s \<Longrightarrow> cache_ok (probes s as)"
  by (induction as arbitrary: s) (simp_all add: cache_ok_trap_address)

lemma probes_frame:
  "cache_index (probes s as) = cache_index s"
  "cache_assoc (probes s as) = cache_assoc s"
  "cache_blockoffsetbits (probes s as) = cache_blockoffsetbits s"
  "cache_blocksize (probes s as) = cache_blocksize s"
  "pipeline (probes s as) = pipeline s"
  by (induction as arbitrary: s) (simp_all add: trap_address_frame)

lemma probes_counters:
  "cache_access s = cache_hit s + cache_miss s \<Longrightarrow>
   cache_access (probes s as) = cache_hit (probes s as) + cache_miss (probes s as)"
proof (induction as arbitrary: s)
  case Nil
  then show ?case by simp
next
  case (Cons a as)
  have "cache_access (snd (iplc_sim_trap_address s a)) =
        cache_hit (snd (iplc_sim_trap_address s a)) + cache_miss (snd (iplc_sim_trap_address s a))"
    using Cons.prems by (simp add: trap_address_frame trap_address_counters)
  then show ?case by (simp add: Cons.IH)
qed

lemma sinv_hit_iff:
  assumes "sinv k cs ch"
  shows "tg \<in> set (tags_of cs ch) \<longleftrightarrow> (\<exists>i<k. valid (lines cs ! i) \<and> tag (lines cs ! i) = tg)"
proof
  assume "tg \<in> set (tags_of cs ch)"
  then obtain j where "j < length ch" "tag (lines cs ! j) = tg"
    unfolding sinv_tags_set [OF assms] by auto
  with assms show "\<exists>i<k. valid (lines cs ! i) \<and> tag (lines cs ! i) = tg"
    by (intro exI [of _ j]) (auto simp: sinv_def)
next
  assume "\<exists>i<k. valid (lines cs ! i) \<and> tag (lines cs ! i) = tg"
  then obtain i where "i < k" "valid (lines cs ! i)" "tag (lines cs ! i) = tg" by blast
  with assms have "i < length ch" by (simp add: sinv_def)
  with \<open>tag (lines cs ! i) = tg\<close> show "tg \<in> set (tags_of cs ch)"
    unfolding sinv_tags_set [OF assms] by blast
qed

lemma trap_address_verdict_parts:
  assumes "iplc_sim_init (startup bpt) index blocksize assoc = Inr s0" "0 \<le> index" "1 \<le> assoc"
    and "s = probes s0 as"
  shows "addr_index s a =
           unat (drop_bit (nat (cache_blockoffsetbits s)) a AND (push_bit (nat (cache_index s)) 1 - 1))"
    and "addr_tag s a = drop_bit (nat (cache_index s) + nat (cache_blockoffsetbits s)) a"
    and "cache_access (snd (iplc_sim_trap_address s a)) = cache_access s + 1"
    and "fst (iplc_sim_trap_address s a) =
           (if \<exists>i<nat (cache_assoc s). valid (lines (cache s ! addr_index s a) ! i) \<and>
                   tag (lines (cache s ! addr_index s a) ! i) = addr_tag s a
            then 1 else 0)"
    and "cache_hit (snd (iplc_sim_trap_address s a)) =
           cache_hit s + (if fst (iplc_sim_trap_address s a) = 1 then 1 else 0)"
    and "cache_miss (snd (iplc_sim_trap_address s a)) =
           cache_miss s + (if fst (iplc_sim_trap_address s a) = 1 then 0 else 1)"
    and "cache_access (snd (iplc_sim_trap_address s a)) =
           cache_hit (snd (iplc_sim_trap_address s a)) + cache_miss (snd (iplc_sim_trap_address s a))"
proof -
  have ok: "cache_ok s"
    unfolding assms(4) by (intro probes_cache_ok init_cache_ok [OF assms(1-3)])
  then obtain ch where ch: "sinv (nat (cache_assoc s)) (cache s ! addr_index s a) ch"
    using addr_index_less [of s a] by (auto simp: cache_ok_def)
  show "addr_index s a =
           unat (drop_bit (nat (cache_blockoffsetbits s)) a AND (push_bit (nat (cache_index s)) 1 - 1))"
    by (rule addr_index_eq)
  show "addr_tag s a = drop_bit (nat (cache_index s) + nat (cache_blockoffsetbits s)) a"
    by (simp add: addr_tag_def add.commute)
  show "cache_access (snd (iplc_sim_trap_address s a)) = cache_access s + 1"
    by (rule trap_address_frame)
  show "fst (iplc_sim_trap_address s a) =
           (if \<exists>i<nat (cache_assoc s). valid (lines (cache s ! addr_index s a) ! i) \<and>
                   tag (lines (cache s ! addr_index s a) ! i) = addr_tag s a
            then 1 else 0)"
    unfolding trap_address_sinv(2) [OF ok ch] sinv_hit_iff [OF ch] ..
  show "cache_hit (snd (iplc_sim_trap_address s a)) =
           cache_hit s + (if fst (iplc_sim_trap_address s a) = 1 then 1 else 0)"
    using trap_address_counters(3) [of s a] by (auto simp: trap_address_counters(1))
  show "cache_miss (snd (iplc_sim_trap_address s a)) =
           cache_miss s + (if fst (iplc_sim_trap_address s a) = 1 then 0 else 1)"
    using trap_address_counters(3) [of s a] by (auto simp: trap_address_counters(2))
  have "cache_access s0 = cache_hit s0 + cache_miss s0"
    by (simp add: init_fields [OF assms(1)] startup_def globals0_def)
  then have "cache_access (probes s0 (as @ [a])) =
      cache_hit (probes s0 (as @ [a])) + cache_miss (probes s0 (as @ [a]))"
    by (rule probes_counters)
  then show "cache_access (snd (iplc_sim_trap_address s a)) =
           cache_hit (snd (iplc_sim_trap_address s a)) + cache_miss (snd (iplc_sim_trap_address s a))"
    by (simp add: assms(4))
qed

section \<open>A small configuration\<close>

text \<open>
  The state after \<open>iplc_sim_init(1, 1, 2)\<close> with \<open>branch_predict_taken = 0\<close>: two sets
  of two lines, blocks of 4 bytes. With it the address \<open>0x1000\<close> has index 0 and tag
  \<open>0x200\<close>, \<open>0x2000\<close> has index 0 and tag \<open>0x400\<close>, \<open>0x3000\<close> has index 0 and tag
  \<open>0x600\<close>.
\<close>

definition example_config :: sim where
  "example_config =
     (startup 0)\<lparr>cache := replicate 2 (initial_cache_set 2), cache_index := 1, cache_blocksize := 1,
                 cache_blockoffsetbits := 2, cache_assoc := 2, pipeline := (\<lambda>_. zero_stage)\<rparr>"

lemma rint_log2_4: "rint_log2 4 = 2"
  by code_simp

lemma example_init: "iplc_sim_init (startup 0) 1 1 2 = Inr example_config"
  by (simp add: iplc_sim_init_def example_config_def rint_log2_4 cache_size_of_def MAX_CACHE_SIZE_def)

section \<open>The verdict of a probe\<close>

text \<open>
  C1. In every state reached from a successful \<open>iplc_sim_init\<close> by probes, a probe of
  any 32-bit address computes the index as \<open>(address >> B) & ((1 << I) - 1)\<close> and the
  tag as \<open>address >> (I + B)\<close>, adds exactly 1 to \<open>cache_access\<close>, returns 1 (a hit, and
  \<open>cache_hit\<close> grows by 1) exactly when a valid line of the indexed set stores the tag,
  and returns 0 (a miss, and \<open>cache_miss\<close> grows by 1) otherwise; afterwards
  \<open>cache_access = cache_hit + cache_miss\<close>.
\<close>

theorem trap_address_verdict:
  assumes "iplc_sim_init (startup bpt) index blocksize assoc = Inr s0" "0 \<le> index" "1 \<le> assoc"
    and "s = probes s0 as"
  shows "addr_index s a =
           unat (drop_bit (nat (cache_blockoffsetbits s)) a AND (push_bit (nat (cache_index s)) 1 - 1)) \<and>
         addr_tag s a = drop_bit (nat (cache_index s) + nat (cache_blockoffsetbits s)) a \<and>
         cache_access (snd (iplc_sim_trap_address s a)) = cache_access s + 1 \<and>
         fst (iplc_sim_trap_address s a) =
           (if \<exists>i<nat (cache_assoc s). valid (lines (cache s ! addr_index s a) ! i) \<and>
                   tag (lines (cache s ! addr_index s a) ! i) = addr_tag s a
            then 1 else 0) \<and>
         cache_hit (snd (iplc_sim_trap_address s a)) =
           cache_hit s + (if fst (iplc_sim_trap_address s a) = 1 then 1 else 0) \<and>
         cache_miss (snd (iplc_sim_trap_address s a)) =
           cache_miss s + (if fst (iplc_sim_trap_address s a) = 1 then 0 else 1) \<and>
         cache_access (snd (iplc_sim_trap_address s a)) =
           cache_hit (snd (iplc_sim_trap_address s a)) + cache_miss (snd (iplc_sim_trap_address s a))"
  by (intro conjI) (rule trap_address_verdict_parts [OF assms])+

theorem trap_address_verdict_witness:
  "iplc_sim_init (startup 0) 1 1 2 = Inr example_config \<and>
   addr_index (probes example_config [0x1000]) 0x1000 = 0 \<and>
   addr_tag (probes example_config [0x1000]) 0x1000 = 0x200 \<and>
   fst (iplc_sim_trap_address (probes example_config [0x1000]) 0x1000) = 1 \<and>
   cache_access (snd (iplc_sim_trap_address (probes example_config [0x1000]) 0x1000)) = 2 \<and>
   cache_hit (snd (iplc_sim_trap_address (probes example_config [0x1000]) 0x1000)) = 1 \<and>
   cache_miss (snd (iplc_sim_trap_address (probes example_config [0x1000]) 0x1000)) = 1"
proof -
  let ?s = "probes example_config [0x1000]"
  have h2: "(0 :: int) \<le> 1" and h3: "(1 :: int) \<le> 2" by simp_all
  have c: "cache_access ?s = 1" "cache_hit ?s = 0" "cache_miss ?s = 1"
    "fst (iplc_sim_trap_address ?s 0x1000) = 1"
    "addr_index ?s 0x1000 = 0" "addr_tag ?s 0x1000 = 0x200"
    by code_simp+
  note t = trap_address_verdict [OF example_init h2 h3 refl, of "[0x1000]" "0x1000"]
  from t c example_init show ?thesis
    by simp
qed

lemma links_last_next: "links cs ch \<Longrightarrow> lru_next (lines cs ! last ch) = None"
  by (cases ch rule: rev_cases) (auto simp: links_def)

lemma links_hd_prev: "links cs ch \<Longrightarrow> lru_prev (lines cs ! hd ch) = None"
  by (cases ch) (auto simp: links_def)

lemma addr_index_cong:
  "cache_index s' = cache_index s \<Longrightarrow> cache_blockoffsetbits s' = cache_blockoffsetbits s \<Longrightarrow>
   addr_index s' a = addr_index s a"
  by (simp add: addr_index_def)

lemma addr_tag_cong:
  "cache_index s' = cache_index s \<Longrightarrow> cache_blockoffsetbits s' = cache_blockoffsetbits s \<Longrightarrow>
   addr_tag s' a = addr_tag s a"
  by (simp add: addr_tag_def)

lemma last_touch: "last (touch k ts t) = t" "touch k ts t \<noteq> []"
  by (simp_all add: touch_def)

lemma trap_address_twice:
  assumes "cache_ok s"
  shows "cache (snd (iplc_sim_trap_address (snd (iplc_sim_trap_address s a)) a)) =
           cache (snd (iplc_sim_trap_address s a))"
    and "fst (iplc_sim_trap_address (snd (iplc_sim_trap_address s a)) a) = 1"
proof -
  let ?s' = "snd (iplc_sim_trap_address s a)"
  let ?k = "nat (cache_assoc s)"
  let ?idx = "addr_index s a"
  from assms have a1: "1 \<le> cache_assoc s" and idx: "?idx < length (cache s)"
    using addr_index_less [of s a] by (simp_all add: cache_ok_def)
  with assms obtain ch where ch: "sinv ?k (cache s ! ?idx) ch"
    by (auto simp: cache_ok_def)
  from trap_address_sinv(1) [OF assms ch] obtain ch' where
    ch': "sinv ?k (cache ?s' ! ?idx) ch'"
    and t: "tags_of (cache ?s' ! ?idx) ch' = touch ?k (tags_of (cache s ! ?idx) ch) (addr_tag s a)"
    by blast
  have cfg: "addr_index ?s' a = ?idx" "addr_tag ?s' a = addr_tag s a" "cache_assoc ?s' = cache_assoc s"
    by (simp_all add: trap_address_frame addr_index_def addr_tag_def)
  from t have ne: "ch' \<noteq> []"
    using last_touch(2) [of ?k "tags_of (cache s ! ?idx) ch" "addr_tag s a"]
    by (auto simp: tags_of_def)
  with ch' have lk: "links (cache ?s' ! ?idx) ch'" and w: "last ch' < length ch'"
    using last_in_set [OF ne] by (auto simp: sinv_def)
  have "last (tags_of (cache ?s' ! ?idx) ch') = addr_tag s a"
    unfolding t by (rule last_touch)
  with ne have tg: "tag (lines (cache ?s' ! ?idx) ! last ch') = addr_tag s a"
    by (simp add: tags_of_def last_map)
  have ch'': "sinv (nat (cache_assoc ?s')) (cache ?s' ! addr_index ?s' a) ch'"
    using ch' by (simp add: cfg)
  have a1': "1 \<le> cache_assoc ?s'" using a1 by (simp add: cfg)
  have tg': "tag (lines (cache ?s' ! addr_index ?s' a) ! last ch') = addr_tag ?s' a"
    using tg by (simp add: cfg)
  note h = trap_address_hit [OF ch'' a1' w tg']
  from h(1) show "fst (iplc_sim_trap_address ?s' a) = 1" .
  have "LRU_update_on_hit_set (cache ?s' ! ?idx) (last ch') = cache ?s' ! ?idx"
    using links_last_next [OF lk] by (simp add: LRU_update_on_hit_set_def)
  with h(2) show "cache (snd (iplc_sim_trap_address ?s' a)) = cache ?s'"
    by (simp add: cfg)
qed


definition tag_history :: "sim \<Rightarrow> uint list \<Rightarrow> nat \<Rightarrow> uint list" where
  "tag_history s as idx = map (addr_tag s) (filter (\<lambda>a. addr_index s a = idx) as)"

lemma probes_config:
  "addr_index (probes s as) a = addr_index s a"
  "addr_tag (probes s as) a = addr_tag s a"
  by (simp_all add: addr_index_def addr_tag_def probes_frame)

lemma probes_length: "cache_ok s \<Longrightarrow> length (cache (probes s as)) = length (cache s)"
  using probes_cache_ok [of s as] by (simp add: cache_ok_def probes_frame)

lemma probes_history:
  assumes "cache_ok s" "idx < length (cache s)" "sinv (nat (cache_assoc s)) (cache s ! idx) ch"
  shows "\<exists>ch'. sinv (nat (cache_assoc s)) (cache (probes s as) ! idx) ch' \<and>
           tags_of (cache (probes s as) ! idx) ch' =
             foldl (touch (nat (cache_assoc s))) (tags_of (cache s ! idx) ch) (tag_history s as idx) \<and>
           length ch \<le> length ch'"
proof (induction as rule: rev_induct)
  case Nil
  with assms(3) show ?case by (auto simp: tag_history_def)
next
  case (snoc a as)
  let ?s = "probes s as"
  from snoc obtain ch1 where ch1: "sinv (nat (cache_assoc s)) (cache ?s ! idx) ch1"
    "tags_of (cache ?s ! idx) ch1 =
       foldl (touch (nat (cache_assoc s))) (tags_of (cache s ! idx) ch) (tag_history s as idx)"
    "length ch \<le> length ch1"
    by blast
  have ok: "cache_ok ?s" using assms(1) by (rule probes_cache_ok)
  show ?case
  proof (cases "addr_index s a = idx")
    case True
    then have i: "addr_index ?s a = idx" by (simp add: probes_config)
    from ch1(1) have "sinv (nat (cache_assoc ?s)) (cache ?s ! addr_index ?s a) ch1"
      by (simp add: i probes_frame)
    from trap_address_sinv(1) [OF ok this, unfolded probes_frame probes_config True] obtain ch' where
      "sinv (nat (cache_assoc s)) (cache (snd (iplc_sim_trap_address ?s a)) ! idx) ch'"
      "tags_of (cache (snd (iplc_sim_trap_address ?s a)) ! idx) ch' =
         touch (nat (cache_assoc s)) (tags_of (cache ?s ! idx) ch1) (addr_tag s a)"
      "length ch1 \<le> length ch'"
      by blast
    with ch1 True show ?thesis
      by (intro exI [of _ ch']) (simp add: tag_history_def)
  next
    case False
    then have i: "idx \<noteq> addr_index ?s a" by (simp add: probes_config)
    have "sinv (nat (cache_assoc ?s)) (cache ?s ! addr_index ?s a) ch2 \<Longrightarrow>
          cache (snd (iplc_sim_trap_address ?s a)) ! idx = cache ?s ! idx" for ch2
      using trap_address_sinv(4) [OF ok, of a ch2] i by simp
    moreover from ok obtain ch2 where "sinv (nat (cache_assoc ?s)) (cache ?s ! addr_index ?s a) ch2"
      using addr_index_less [of ?s a] by (auto simp: cache_ok_def)
    ultimately have "cache (snd (iplc_sim_trap_address ?s a)) ! idx = cache ?s ! idx"
      by blast
    with ch1 False show ?thesis
      by (intro exI [of _ ch1]) (simp add: tag_history_def)
  qed
qed

lemma probes_untouched:
  assumes "cache_ok s" "tag_history s as idx = []"
  shows "cache (probes s as) ! idx = cache s ! idx"
  using assms(2)
proof (induction as rule: rev_induct)
  case Nil
  then show ?case by simp
next
  case (snoc a as)
  let ?s = "probes s as"
  from snoc.prems have h: "tag_history s as idx = []" and ne: "addr_index s a \<noteq> idx"
    by (auto simp: tag_history_def split: if_splits)
  have ok: "cache_ok ?s" using assms(1) by (rule probes_cache_ok)
  then obtain ch2 where "sinv (nat (cache_assoc ?s)) (cache ?s ! addr_index ?s a) ch2"
    using addr_index_less [of ?s a] by (auto simp: cache_ok_def)
  from trap_address_sinv(4) [OF ok this] ne
  have "cache (snd (iplc_sim_trap_address ?s a)) ! idx = cache ?s ! idx"
    by (simp add: probes_config)
  with snoc.IH [OF h] show ?case by simp
qed

lemma cold_fill:
  assumes "cache_ok s" "idx < length (cache s)" "sinv (nat (cache_assoc s)) (cache s ! idx) []"
    and "\<forall>a \<in> set as. addr_index s a = idx" "distinct (map (addr_tag s) as)"
    and "length as \<le> nat (cache_assoc s)"
  shows "sinv (nat (cache_assoc s)) (cache (probes s as) ! idx) [0..<length as] \<and>
         tags_of (cache (probes s as) ! idx) [0..<length as] = map (addr_tag s) as"
  using assms(4-6)
proof (induction as rule: rev_induct)
  case Nil
  with assms(3) show ?case by (simp add: tags_of_def)
next
  case (snoc a as)
  let ?s = "probes s as"
  let ?k = "nat (cache_assoc s)"
  from snoc have ih: "sinv ?k (cache ?s ! idx) [0..<length as]"
    "tags_of (cache ?s ! idx) [0..<length as] = map (addr_tag s) as"
    by simp_all
  from snoc.prems have i: "addr_index ?s a = idx" and i0: "addr_index s a = idx"
    and n: "length as < ?k" and t: "addr_tag s a \<notin> set (map (addr_tag s) as)"
    by (simp_all add: probes_config)
  have ok: "cache_ok ?s" using assms(1) by (rule probes_cache_ok)
  from ih(1) have "sinv (nat (cache_assoc ?s)) (cache ?s ! addr_index ?s a) [0..<length as]"
    by (simp add: i probes_frame)
  from trap_address_sinv(1) [OF ok this, unfolded probes_frame probes_config i0] obtain ch' where
    c: "sinv ?k (cache (snd (iplc_sim_trap_address ?s a)) ! idx) ch'"
    "tags_of (cache (snd (iplc_sim_trap_address ?s a)) ! idx) ch' =
       touch ?k (tags_of (cache ?s ! idx) [0..<length as]) (addr_tag s a)"
    "addr_tag s a \<notin> set (tags_of (cache ?s ! idx) [0..<length as]) \<and>
       length [0..<length as] < ?k \<longrightarrow> ch' = [0..<length as] @ [length [0..<length as]]"
    by blast
  from c(3) t n have ch': "ch' = [0..<Suc (length as)]"
    by (simp add: ih(2))
  from c(1,2) t n show ?case
    by (simp add: ch' ih(2) touch_def)
qed

lemma reach_ok:
  assumes "iplc_sim_init g index blocksize assoc = Inr s0" "0 \<le> index" "1 \<le> assoc"
  shows "cache_ok (probes s0 as)"
  by (intro probes_cache_ok init_cache_ok [OF assms])

section \<open>Valid lines are a prefix of the set\<close>

text \<open>
  C9. In every state reached from a successful \<open>iplc_sim_init\<close> by probes, the valid
  lines of a set are a prefix of its \<open>lines\<close> array: a valid line has only valid
  lines before it. A probe never clears a valid bit. So the scan of
  \<open>iplc_sim_trap_address\<close>, which stops at the first line that is not valid, skips no
  valid line: when the probe returns 0, no valid line of the indexed set stores the tag.
\<close>

theorem valid_lines_prefix:
  assumes "iplc_sim_init (startup bpt) index blocksize assoc = Inr s0" "0 \<le> index" "1 \<le> assoc"
    and "s = probes s0 as" "idx < length (cache s)"
  shows "(\<forall>i j. i \<le> j \<and> j < nat (cache_assoc s) \<and> valid (lines (cache s ! idx) ! j)
            \<longrightarrow> valid (lines (cache s ! idx) ! i)) \<and>
         (\<forall>i < nat (cache_assoc s). valid (lines (cache s ! idx) ! i)
            \<longrightarrow> valid (lines (cache (snd (iplc_sim_trap_address s a)) ! idx) ! i)) \<and>
         (fst (iplc_sim_trap_address s a) = 0 \<longrightarrow>
            (\<forall>i < nat (cache_assoc s).
               \<not> (valid (lines (cache s ! addr_index s a) ! i) \<and>
                  tag (lines (cache s ! addr_index s a) ! i) = addr_tag s a)))"
proof -
  let ?k = "nat (cache_assoc s)"
  let ?s' = "snd (iplc_sim_trap_address s a)"
  have ok: "cache_ok s"
    unfolding assms(4) by (rule reach_ok [OF assms(1-3)])
  with assms(5) obtain ch where ch: "sinv ?k (cache s ! idx) ch"
    by (auto simp: cache_ok_def)
  from ok obtain cha where cha: "sinv ?k (cache s ! addr_index s a) cha"
    using addr_index_less [of s a] by (auto simp: cache_ok_def)
  have 1: "valid (lines (cache s ! idx) ! i)"
    if "i \<le> j" "j < ?k" "valid (lines (cache s ! idx) ! j)" for i j
    using ch that by (simp add: sinv_def)
  have 2: "valid (lines (cache ?s' ! idx) ! i)" if "i < ?k" "valid (lines (cache s ! idx) ! i)" for i
  proof (cases "idx = addr_index s a")
    case True
    from trap_address_sinv(1) [OF ok cha] obtain ch' where
      "sinv ?k (cache ?s' ! addr_index s a) ch'" "length cha \<le> length ch'"
      by blast
    moreover from cha that have "i < length cha"
      by (simp add: sinv_def True)
    ultimately show ?thesis
      using that(1) by (simp add: sinv_def True)
  next
    case False
    with trap_address_sinv(4) [OF ok cha] that show ?thesis by simp
  qed
  have 3: "\<not> (valid (lines (cache s ! addr_index s a) ! i) \<and>
              tag (lines (cache s ! addr_index s a) ! i) = addr_tag s a)"
    if "fst (iplc_sim_trap_address s a) = 0" "i < ?k" for i
    using that trap_address_sinv(2) [OF ok cha] sinv_hit_iff [OF cha, of "addr_tag s a"]
    by (auto split: if_splits)
  from 1 2 3 show ?thesis by blast
qed

theorem valid_lines_prefix_witness:
  "iplc_sim_init (startup 0) 1 1 2 = Inr example_config \<and>
   valid (lines (cache (probes example_config [0x1000]) ! 0) ! 0) \<and>
   valid (lines (cache (snd (iplc_sim_trap_address (probes example_config [0x1000]) 0x2000)) ! 0) ! 0) \<and>
   fst (iplc_sim_trap_address (probes example_config [0x1000]) 0x2000) = 0 \<and>
   \<not> (valid (lines (cache (probes example_config [0x1000]) ! 0) ! 1) \<and>
      tag (lines (cache (probes example_config [0x1000]) ! 0) ! 1) = 0x400)"
proof -
  let ?s = "probes example_config [0x1000]"
  have h2: "(0 :: int) \<le> 1" and h3: "(1 :: int) \<le> 2" by simp_all
  have h5: "(0 :: nat) < length (cache ?s)" by code_simp
  have c: "valid (lines (cache ?s ! 0) ! 0)"
    "fst (iplc_sim_trap_address ?s 0x2000) = 0"
    "nat (cache_assoc ?s) = 2" "addr_index ?s 0x2000 = 0" "addr_tag ?s 0x2000 = 0x400"
    by code_simp+
  note t = valid_lines_prefix [OF example_init h2 h3 refl h5, of "0x2000"]
  from t c example_init show ?thesis
    by (simp add: less_Suc_eq numeral_2_eq_2)
qed

section \<open>A repeated probe\<close>

text \<open>
  C8. In every state reached from a successful \<open>iplc_sim_init\<close> by probes, a second
  probe of the same address right after the first is a hit and leaves the whole cache
  (in every set the lines with their \<open>lru_prev\<close> and \<open>lru_next\<close>, \<open>lru_head\<close> and
  \<open>lru_tail\<close>) as the first probe left it.
\<close>

theorem repeated_probe_same_chain:
  assumes "iplc_sim_init (startup bpt) index blocksize assoc = Inr s0" "0 \<le> index" "1 \<le> assoc"
    and "s = probes s0 as"
  shows "cache (snd (iplc_sim_trap_address (snd (iplc_sim_trap_address s a)) a)) =
           cache (snd (iplc_sim_trap_address s a)) \<and>
         fst (iplc_sim_trap_address (snd (iplc_sim_trap_address s a)) a) = 1"
proof -
  have "cache_ok s"
    unfolding assms(4) by (rule reach_ok [OF assms(1-3)])
  then show ?thesis
    by (simp add: trap_address_twice)
qed

theorem repeated_probe_same_chain_witness:
  "iplc_sim_init (startup 0) 1 1 2 = Inr example_config \<and>
   cache (snd (iplc_sim_trap_address (snd (iplc_sim_trap_address (probes example_config [0x1000, 0x2000]) 0x1000)) 0x1000)) =
     cache (snd (iplc_sim_trap_address (probes example_config [0x1000, 0x2000]) 0x1000)) \<and>
   fst (iplc_sim_trap_address (snd (iplc_sim_trap_address (probes example_config [0x1000, 0x2000]) 0x1000)) 0x1000) = 1"
proof -
  have h2: "(0 :: int) \<le> 1" and h3: "(1 :: int) \<le> 2" by simp_all
  from repeated_probe_same_chain [OF example_init h2 h3 refl, of "[0x1000, 0x2000]" "0x1000"] example_init
  show ?thesis
    by (rule conjI [rotated])
qed

lemma tags_of_upt_nth: "i < n \<Longrightarrow> tags_of cs [0..<n] ! i = tag (lines cs ! i)"
  by (simp add: tags_of_def)

section \<open>Filling an empty set, and the first eviction\<close>

text \<open>
  C5. Take a state reached from a successful \<open>iplc_sim_init\<close> by probes in which the set
  \<open>idx\<close> has no valid line, and \<open>assoc\<close> addresses of index \<open>idx\<close> with distinct tags.
  Probed in order, the \<open>i\<close>-th of them is installed in line \<open>i\<close>, which becomes the
  head of the chain (its \<open>lru_next\<close> is \<open>NULL\<close>); after all of them line 0, with the
  first tag, is the tail, and line \<open>i\<close> still holds the \<open>i\<close>-th tag. A further address
  of the same index with a new tag then misses, and afterwards no valid line of the set
  holds the first tag.
\<close>

theorem cold_fill_then_evict:
  assumes "iplc_sim_init (startup bpt) index blocksize assoc = Inr s0" "0 \<le> index" "1 \<le> assoc"
    and "s = probes s0 pre" "idx < length (cache s)"
    and "\<forall>i < nat assoc. \<not> valid (lines (cache s ! idx) ! i)"
    and "length as = nat assoc" "\<forall>a \<in> set as. addr_index s a = idx" "distinct (map (addr_tag s) as)"
    and "addr_index s b = idx" "addr_tag s b \<notin> set (map (addr_tag s) as)"
  shows "(\<forall>i < length as.
            valid (lines (cache (probes s (take (Suc i) as)) ! idx) ! i) \<and>
            tag (lines (cache (probes s (take (Suc i) as)) ! idx) ! i) = addr_tag s (as ! i) \<and>
            lru_head (cache (probes s (take (Suc i) as)) ! idx) = i \<and>
            lru_next (lines (cache (probes s (take (Suc i) as)) ! idx) ! i) = None) \<and>
         lru_tail (cache (probes s as) ! idx) = 0 \<and>
         lru_prev (lines (cache (probes s as) ! idx) ! 0) = None \<and>
         (\<forall>i < length as. valid (lines (cache (probes s as) ! idx) ! i) \<and>
            tag (lines (cache (probes s as) ! idx) ! i) = addr_tag s (as ! i)) \<and>
         fst (iplc_sim_trap_address (probes s as) b) = 0 \<and>
         (\<forall>i < nat assoc.
            \<not> (valid (lines (cache (snd (iplc_sim_trap_address (probes s as) b)) ! idx) ! i) \<and>
               tag (lines (cache (snd (iplc_sim_trap_address (probes s as) b)) ! idx) ! i) =
                 addr_tag s (as ! 0)))"
proof -
  let ?k = "nat (cache_assoc s)"
  have ok: "cache_ok s"
    unfolding assms(4) by (rule reach_ok [OF assms(1-3)])
  have k: "cache_assoc s = assoc"
    by (simp add: assms(4) probes_frame init_fields [OF assms(1)])
  from ok assms(5) obtain ch where ch: "sinv ?k (cache s ! idx) ch"
    by (auto simp: cache_ok_def)
  moreover from assms(3,6) have "\<not> valid (lines (cache s ! idx) ! 0)"
    by simp
  moreover from ch have "valid (lines (cache s ! idx) ! 0) = (0 < length ch)"
    by (simp add: sinv_def)
  ultimately have "ch = []"
    by simp
  with ch have e: "sinv ?k (cache s ! idx) []" by simp
  have fill: "sinv ?k (cache (probes s (take n as)) ! idx) [0..<n] \<and>
              tags_of (cache (probes s (take n as)) ! idx) [0..<n] = map (addr_tag s) (take n as)"
    if "n \<le> length as" for n
  proof -
    have "\<forall>a \<in> set (take n as). addr_index s a = idx"
      using assms(8) by (auto dest: in_set_takeD)
    moreover have "distinct (map (addr_tag s) (take n as))"
      using assms(9) by (simp add: distinct_take take_map [symmetric])
    moreover have "length (take n as) \<le> ?k"
      using that assms(7) by (simp add: k)
    ultimately show ?thesis
      using cold_fill [OF ok assms(5) e, of "take n as"] that by simp
  qed
  have step: "valid (lines (cache (probes s (take (Suc i) as)) ! idx) ! i) \<and>
            tag (lines (cache (probes s (take (Suc i) as)) ! idx) ! i) = addr_tag s (as ! i) \<and>
            lru_head (cache (probes s (take (Suc i) as)) ! idx) = i \<and>
            lru_next (lines (cache (probes s (take (Suc i) as)) ! idx) ! i) = None"
    if "i < length as" for i
  proof -
    let ?cs = "cache (probes s (take (Suc i) as)) ! idx"
    from that fill [of "Suc i"] have f: "sinv ?k ?cs [0..<Suc i]"
      "tags_of ?cs [0..<Suc i] = map (addr_tag s) (take (Suc i) as)"
      by simp_all
    from f(1) have lk: "links ?cs [0..<Suc i]"
      by (simp add: sinv_def)
    have "valid (lines ?cs ! i)"
      using sinv_valid [OF f(1), of i] by simp
    moreover have "tag (lines ?cs ! i) = addr_tag s (as ! i)"
    proof -
      have "tag (lines ?cs ! i) = tags_of ?cs [0..<Suc i] ! i"
        by (simp only: tags_of_upt_nth [OF lessI])
      also have "\<dots> = map (addr_tag s) (take (Suc i) as) ! i"
        by (simp only: f(2))
      also have "\<dots> = addr_tag s (as ! i)"
        using that by simp
      finally show ?thesis .
    qed
    moreover from lk have "lru_head ?cs = i"
      by (simp add: links_def)
    moreover from links_last_next [OF lk] have "lru_next (lines ?cs ! i) = None"
      by simp
    ultimately show ?thesis by simp
  qed
  let ?sk = "probes s as"
  let ?cs = "cache ?sk ! idx"
  from fill [of "length as"] have f: "sinv ?k ?cs [0..<length as]"
    "tags_of ?cs [0..<length as] = map (addr_tag s) as"
    by simp_all
  have pos: "0 < length as" using assms(3,7) by simp
  with f(1) have lk: "links ?cs [0..<length as]"
    by (simp add: sinv_def)
  from lk pos have tl0: "lru_tail ?cs = 0"
    by (simp add: links_def hd_upt)
  from links_hd_prev [OF lk] pos have pv0: "lru_prev (lines ?cs ! 0) = None"
    by (simp add: hd_upt)
  have all: "valid (lines ?cs ! i) \<and> tag (lines ?cs ! i) = addr_tag s (as ! i)" if "i < length as" for i
  proof -
    have "tag (lines ?cs ! i) = tags_of ?cs [0..<length as] ! i"
      by (simp only: tags_of_upt_nth [OF that])
    also have "\<dots> = addr_tag s (as ! i)"
      using that by (simp only: f(2) nth_map)
    finally show ?thesis
      using sinv_valid [OF f(1), of i] that by simp
  qed
  have okk: "cache_ok ?sk" using ok by (rule probes_cache_ok)
  have f': "sinv (nat (cache_assoc ?sk)) (cache ?sk ! addr_index ?sk b) [0..<length as]"
    using f(1) by (simp add: probes_frame probes_config assms(10))
  note m = trap_address_sinv [OF okk f', unfolded probes_frame probes_config assms(10) f(2)]
  from m(2) assms(11) have miss: "fst (iplc_sim_trap_address ?sk b) = 0"
    by simp
  from m(1) obtain ch' where
    c: "sinv ?k (cache (snd (iplc_sim_trap_address ?sk b)) ! idx) ch'"
    "tags_of (cache (snd (iplc_sim_trap_address ?sk b)) ! idx) ch' =
       touch ?k (map (addr_tag s) as) (addr_tag s b)"
    by blast
  have "touch ?k (map (addr_tag s) as) (addr_tag s b) = tl (map (addr_tag s) as) @ [addr_tag s b]"
    using assms(7,11) by (simp add: touch_def k)
  moreover have "addr_tag s (as ! 0) \<notin> set (tl (map (addr_tag s) as) @ [addr_tag s b])"
    using assms(9,11) pos by (cases as) auto
  ultimately have "addr_tag s (as ! 0) \<notin>
      set (tags_of (cache (snd (iplc_sim_trap_address ?sk b)) ! idx) ch')"
    by (simp add: c(2))
  then have gone: "\<not> (valid (lines (cache (snd (iplc_sim_trap_address ?sk b)) ! idx) ! i) \<and>
               tag (lines (cache (snd (iplc_sim_trap_address ?sk b)) ! idx) ! i) = addr_tag s (as ! 0))"
    if "i < nat assoc" for i
    using that sinv_hit_iff [OF c(1), of "addr_tag s (as ! 0)"] by (auto simp: k)
  from step tl0 pv0 all miss gone show ?thesis
    by blast
qed

theorem cold_fill_then_evict_witness:
  "iplc_sim_init (startup 0) 1 1 2 = Inr example_config \<and>
   tag (lines (cache (probes (probes example_config []) (take (Suc 1) [0x1000, 0x2000])) ! 0) ! 1) = 0x400 \<and>
   lru_head (cache (probes (probes example_config []) (take (Suc 1) [0x1000, 0x2000])) ! 0) = 1 \<and>
   lru_tail (cache (probes (probes example_config []) [0x1000, 0x2000]) ! 0) = 0 \<and>
   fst (iplc_sim_trap_address (probes (probes example_config []) [0x1000, 0x2000]) 0x3000) = 0 \<and>
   \<not> (valid (lines (cache (snd (iplc_sim_trap_address (probes (probes example_config []) [0x1000, 0x2000]) 0x3000)) ! 0) ! 0) \<and>
      tag (lines (cache (snd (iplc_sim_trap_address (probes (probes example_config []) [0x1000, 0x2000]) 0x3000)) ! 0) ! 0) = 0x200)"
proof -
  have h2: "(0 :: int) \<le> 1" and h3: "(1 :: int) \<le> 2" by simp_all
  have h5: "(0 :: nat) < length (cache (probes example_config []))" by code_simp
  have e0: "\<not> valid (lines (cache (probes example_config []) ! 0) ! 0)"
    and e1: "\<not> valid (lines (cache (probes example_config []) ! 0) ! 1)"
    by code_simp+
  have h6: "\<forall>i < nat 2. \<not> valid (lines (cache (probes example_config []) ! 0) ! i)"
    using e0 e1 by (simp add: less_Suc_eq numeral_2_eq_2)
  have h7: "length [0x1000, 0x2000 :: uint] = nat 2" by simp
  have i1: "addr_index (probes example_config []) 0x1000 = 0"
    and i2: "addr_index (probes example_config []) 0x2000 = 0"
    and h10: "addr_index (probes example_config []) 0x3000 = 0"
    and t1: "addr_tag (probes example_config []) 0x1000 = 0x200"
    and t2: "addr_tag (probes example_config []) 0x2000 = 0x400"
    and t3: "addr_tag (probes example_config []) 0x3000 = 0x600"
    by code_simp+
  have h8: "\<forall>a \<in> set [0x1000, 0x2000]. addr_index (probes example_config []) a = 0"
    using i1 i2 by simp
  have h9: "distinct (map (addr_tag (probes example_config [])) [0x1000, 0x2000])"
    using t1 t2 by simp
  have h11: "addr_tag (probes example_config []) 0x3000 \<notin>
      set (map (addr_tag (probes example_config [])) [0x1000, 0x2000])"
    using t1 t2 t3 by simp
  note t = cold_fill_then_evict [OF example_init h2 h3 refl h5 h6 h7 h8 h9 h10 h11]
  from t t1 t2 example_init show ?thesis
    by (simp add: less_Suc_eq numeral_2_eq_2)
qed

section \<open>The chain is the recency order\<close>

text \<open>
  The tags probed at a set, in the order of their last probe, are \<open>remdups\<close> of the
  history (which keeps the last occurrence of each tag); a set of \<open>k\<close> lines holds the
  last \<open>k\<close> of them.
\<close>

definition lru_order :: "nat \<Rightarrow> 'a list \<Rightarrow> 'a list" where
  "lru_order k h = (let r = remdups h in drop (length r - k) r)"

lemma remdups_snoc: "remdups (h @ [t]) = filter (\<lambda>x. x \<noteq> t) (remdups h) @ [t]"
  by (induction h) auto

lemma touch_drop_new:
  assumes "distinct R" "0 < k" "t \<notin> set R"
  shows "touch k (drop (length R - k) R) t = drop (length (R @ [t]) - k) (R @ [t])"
proof (cases "length R < k")
  case True
  with assms show ?thesis by (simp add: touch_def)
next
  case False
  with assms have "t \<notin> set (drop (length R - k) R)"
    by (auto dest: in_set_dropD)
  with False assms show ?thesis
    by (simp add: touch_def tl_drop drop_Suc Suc_diff_le)
qed

lemma touch_drop_old:
  assumes "distinct (P @ t # S)" "0 < k"
  shows "touch k (drop (length (P @ t # S) - k) (P @ t # S)) t =
         drop (length (P @ S @ [t]) - k) (P @ S @ [t])"
proof (cases "Suc (length P + length S) - k \<le> length P")
  case True
  from assms(1) have "t \<notin> set (drop (Suc (length P + length S) - k) P)"
    by (auto dest: in_set_dropD)
  with True assms show ?thesis
    by (simp add: touch_def remove1_append)
next
  case False
  then have k: "k \<le> length S" by simp
  then have n: "Suc (length P + length S) - k - length P = Suc (length S - k)"
    and n': "Suc (length S) - k = Suc (length S - k)"
    by simp_all
  from assms(1) have "t \<notin> set (drop (length S - k) S)"
    by (auto dest: in_set_dropD)
  with False assms k show ?thesis
    by (simp add: touch_def n n' tl_drop drop_Suc)
qed

lemma touch_lru_order:
  assumes "0 < k"
  shows "touch k (lru_order k h) t = lru_order k (h @ [t])"
proof (cases "t \<in> set (remdups h)")
  case True
  then obtain P S where r: "remdups h = P @ t # S"
    using split_list [of t "remdups h"] by blast
  have d: "distinct (P @ t # S)"
    using distinct_remdups [of h] by (simp only: r)
  then have "filter (\<lambda>x. x \<noteq> t) P = P" "filter (\<lambda>x. x \<noteq> t) S = S"
    by (auto simp: filter_id_conv)
  then have "filter (\<lambda>x. x \<noteq> t) (P @ t # S) = P @ S"
    by simp
  with touch_drop_old [OF d assms] show ?thesis
    by (simp add: lru_order_def Let_def remdups_snoc r)
next
  case False
  then have "filter (\<lambda>x. x \<noteq> t) (remdups h) = remdups h"
    by (auto simp: filter_id_conv)
  with touch_drop_new [OF distinct_remdups assms False] show ?thesis
    by (simp add: lru_order_def Let_def remdups_snoc)
qed

lemma foldl_touch: "0 < k \<Longrightarrow> foldl (touch k) [] h = lru_order k h"
proof (induction h rule: rev_induct)
  case Nil
  then show ?case by (simp add: lru_order_def)
next
  case (snoc t h)
  then show ?case by (simp add: touch_lru_order)
qed


text \<open>
  The chain of a set, read from \<open>lru_tail\<close> along \<open>lru_next\<close>; a set has no more than
  \<open>length (lines cs)\<close> lines to visit.
\<close>

fun follow :: "cache_line list \<Rightarrow> nat \<Rightarrow> nat \<Rightarrow> nat list" where
  "follow ls 0 i = []"
| "follow ls (Suc n) i = i # (case lru_next (ls ! i) of None \<Rightarrow> [] | Some j \<Rightarrow> follow ls n j)"

definition chain :: "cache_set \<Rightarrow> nat list" where
  "chain cs = follow (lines cs) (length (lines cs)) (lru_tail cs)"

definition valid_ways :: "cache_set \<Rightarrow> nat list" where
  "valid_ways cs = filter (\<lambda>i. valid (lines cs ! i)) [0..<length (lines cs)]"

definition chain_wf :: "cache_set \<Rightarrow> bool" where
  "chain_wf cs \<longleftrightarrow>
     distinct (chain cs) \<and> set (chain cs) = set (valid_ways cs) \<and>
     nexts (lines cs) (chain cs) None \<and> prevs (lines cs) None (chain cs) \<and>
     hd (chain cs) = lru_tail cs \<and> last (chain cs) = lru_head cs"

lemma follow_nexts:
  "nexts ls (x # xs) None \<Longrightarrow> length (x # xs) \<le> n \<Longrightarrow> follow ls n x = x # xs"
proof (induction xs arbitrary: x n)
  case Nil
  then show ?case by (cases n) simp_all
next
  case (Cons y ys)
  then show ?case by (cases n) simp_all
qed

lemma sinv_chain:
  assumes "sinv k cs ch" "ch \<noteq> []"
  shows "chain cs = ch" and "chain_wf cs"
proof -
  from assms have lk: "links cs ch" and len: "length ch \<le> length (lines cs)"
    by (simp_all add: sinv_def)
  from lk obtain x xs where ch: "ch = x # xs" "lru_tail cs = x"
    by (cases ch) (auto simp: links_def)
  from lk len show c: "chain cs = ch"
    unfolding chain_def ch by (intro follow_nexts) (simp_all add: links_def ch)
  from assms(1) have "set (valid_ways cs) = set ch"
    by (auto simp: valid_ways_def sinv_def)
  with lk show "chain_wf cs"
    by (simp add: chain_wf_def c links_def)
qed

lemma chain_initial: "1 \<le> assoc \<Longrightarrow> chain (initial_cache_set assoc) = [0]"
  by (cases "nat assoc") (simp_all add: chain_def initial_cache_set_def empty_line_def)

lemma valid_ways_initial: "valid_ways (initial_cache_set assoc) = []"
  by (simp add: valid_ways_def initial_cache_set_def empty_line_def)

text \<open>
  C3 (amended). In every state reached from a successful \<open>iplc_sim_init\<close> by probes: a
  set that no probe has indexed yet is as \<open>iplc_sim_init\<close> left it, with no valid line
  and the chain seeded at line 0; in a set that a probe has indexed, the chain from
  \<open>lru_tail\<close> along \<open>lru_next\<close> to \<open>lru_head\<close> holds exactly the valid lines, each
  once, \<open>lru_prev\<close> and \<open>lru_next\<close> are inverse to each other along it, the head has
  no \<open>lru_next\<close> and the tail no \<open>lru_prev\<close>, and the tags along the chain are the
  tags probed at this set in the order of their last probe, the last \<open>assoc\<close> of them.
\<close>

theorem recency_chain_after_probes:
  assumes "iplc_sim_init (startup bpt) index blocksize assoc = Inr s0" "0 \<le> index" "1 \<le> assoc"
    and "s = probes s0 as" "idx < length (cache s)"
  shows "(tag_history s0 as idx = [] \<longrightarrow>
            cache s ! idx = initial_cache_set assoc \<and>
            chain (cache s ! idx) = [0] \<and> valid_ways (cache s ! idx) = []) \<and>
         (tag_history s0 as idx \<noteq> [] \<longrightarrow>
            chain_wf (cache s ! idx) \<and>
            map (\<lambda>i. tag (lines (cache s ! idx) ! i)) (chain (cache s ! idx)) =
              lru_order (nat assoc) (tag_history s0 as idx) \<and>
            lru_next (lines (cache s ! idx) ! lru_head (cache s ! idx)) = None \<and>
            lru_prev (lines (cache s ! idx) ! lru_tail (cache s ! idx)) = None)"
proof -
  let ?k = "nat assoc"
  let ?h = "tag_history s0 as idx"
  have ok0: "cache_ok s0"
    by (rule init_cache_ok [OF assms(1-3)])
  have len: "length (cache s) = length (cache s0)"
    unfolding assms(4) by (rule probes_length [OF ok0])
  with assms(5) have idx0: "idx < length (cache s0)" by simp
  have k: "cache_assoc s0 = assoc"
    by (rule init_fields [OF assms(1)])
  from idx0 have c0: "cache s0 ! idx = initial_cache_set assoc"
    by (simp add: init_fields [OF assms(1)])
  have e: "sinv (nat (cache_assoc s0)) (cache s0 ! idx) []"
    unfolding c0 k by (rule sinv_initial [OF assms(3)])
  have 1: "cache s ! idx = initial_cache_set assoc \<and>
           chain (cache s ! idx) = [0] \<and> valid_ways (cache s ! idx) = []" if "?h = []"
    using probes_untouched [OF ok0 that] assms(3)
    by (simp add: assms(4) c0 chain_initial valid_ways_initial)
  have 2: "chain_wf (cache s ! idx) \<and>
            map (\<lambda>i. tag (lines (cache s ! idx) ! i)) (chain (cache s ! idx)) = lru_order ?k ?h \<and>
            lru_next (lines (cache s ! idx) ! lru_head (cache s ! idx)) = None \<and>
            lru_prev (lines (cache s ! idx) ! lru_tail (cache s ! idx)) = None" if "?h \<noteq> []"
  proof -
    from probes_history [OF ok0 idx0 e, of as] obtain ch where
      ch: "sinv ?k (cache s ! idx) ch"
      "tags_of (cache s ! idx) ch = foldl (touch ?k) (tags_of (cache s0 ! idx) []) ?h"
      unfolding k assms(4) by blast
    from assms(3) have kpos: "0 < ?k" by simp
    from ch(2) have t: "tags_of (cache s ! idx) ch = lru_order ?k ?h"
      by (simp add: tags_of_def foldl_touch [OF kpos])
    from that obtain t' h' where "?h = h' @ [t']"
      by (cases ?h rule: rev_cases) auto
    then have "lru_order ?k ?h \<noteq> []"
      using touch_lru_order [OF kpos, of h' t'] last_touch(2) [of ?k "lru_order ?k h'" t'] by simp
    with t have ne: "ch \<noteq> []"
      by (auto simp: tags_of_def)
    note c = sinv_chain [OF ch(1) ne]
    from ch(1) ne have lk: "links (cache s ! idx) ch"
      by (simp add: sinv_def)
    then have "lru_head (cache s ! idx) = last ch" "lru_tail (cache s ! idx) = hd ch"
      by (simp_all add: links_def)
    with links_last_next [OF lk] links_hd_prev [OF lk] c t show ?thesis
      by (simp add: tags_of_def)
  qed
  from 1 2 show ?thesis by blast
qed

theorem recency_chain_after_probes_witness:
  "iplc_sim_init (startup 0) 1 1 2 = Inr example_config \<and>
   tag_history example_config [0x1000, 0x2000, 0x1000, 0x3000] 0 = [0x200, 0x400, 0x200, 0x600] \<and>
   chain_wf (cache (probes example_config [0x1000, 0x2000, 0x1000, 0x3000]) ! 0) \<and>
   map (\<lambda>i. tag (lines (cache (probes example_config [0x1000, 0x2000, 0x1000, 0x3000]) ! 0) ! i))
     (chain (cache (probes example_config [0x1000, 0x2000, 0x1000, 0x3000]) ! 0)) = [0x200, 0x600] \<and>
   tag_history example_config [0x1000, 0x2000, 0x1000, 0x3000] 1 = [] \<and>
   cache (probes example_config [0x1000, 0x2000, 0x1000, 0x3000]) ! 1 = initial_cache_set 2"
proof -
  let ?as = "[0x1000, 0x2000, 0x1000, 0x3000] :: uint list"
  let ?s = "probes example_config ?as"
  have h2: "(0 :: int) \<le> 1" and h3: "(1 :: int) \<le> 2" by simp_all
  have h5: "(0 :: nat) < length (cache ?s)" "(1 :: nat) < length (cache ?s)" by code_simp+
  have c: "tag_history example_config ?as 0 = [0x200, 0x400, 0x200, 0x600]"
    "tag_history example_config ?as 1 = []"
    "lru_order (nat 2) [0x200, 0x400, 0x200, 0x600 :: uint] = [0x200, 0x600]"
    by code_simp+
  note t0 = recency_chain_after_probes [OF example_init h2 h3 refl h5(1)]
  note t1 = recency_chain_after_probes [OF example_init h2 h3 refl h5(2)]
  from t0 t1 c example_init show ?thesis
    by simp
qed

text \<open>
  Without the restriction to the sets that a probe has indexed the statement fails
  right after \<open>iplc_sim_init\<close>: the chain of a set is then the line 0, which is not
  valid.
\<close>

theorem chain_after_init_counterexample:
  "iplc_sim_init (startup 0) 1 1 2 = Inr example_config \<and>
   chain (cache example_config ! 0) = [0] \<and>
   \<not> valid (lines (cache example_config ! 0) ! 0) \<and>
   set (chain (cache example_config ! 0)) \<noteq> set (valid_ways (cache example_config ! 0))"
proof -
  have "chain (cache example_config ! 0) = [0]" "\<not> valid (lines (cache example_config ! 0) ! 0)"
    "valid_ways (cache example_config ! 0) = []"
    by code_simp+
  with example_init show ?thesis by simp
qed

section \<open>Draining the pipeline\<close>

text \<open>
  The loop of \<open>iplc_sim_finalize\<close>: push until every stage holds a \<open>NOP\<close>. Each push
  moves the stages on by one and zeroes \<open>FETCH\<close>, so the loop ends after at most five
  pushes.
\<close>

definition all_nop :: "sim \<Rightarrow> bool" where
  "all_nop s \<longleftrightarrow>
     itype (pipeline s FETCH) = NOP \<and> itype (pipeline s DECODE) = NOP \<and>
     itype (pipeline s ALU) = NOP \<and> itype (pipeline s MEM) = NOP \<and>
     itype (pipeline s WRITEBACK) = NOP"

definition drain_distance :: "sim \<Rightarrow> nat" where
  "drain_distance s =
     (if itype (pipeline s FETCH) \<noteq> NOP then 5
      else if itype (pipeline s DECODE) \<noteq> NOP then 4
      else if itype (pipeline s ALU) \<noteq> NOP then 3
      else if itype (pipeline s MEM) \<noteq> NOP then 2
      else if itype (pipeline s WRITEBACK) \<noteq> NOP then 1
      else 0)"

lemma drain_distance_push:
  "\<not> all_nop s \<Longrightarrow> drain_distance (iplc_sim_push_pipeline_stage s) < drain_distance s"
  by (simp add: drain_distance_def all_nop_def push_stage_fields shift_stages_def zero_stage_def)

function iplc_sim_finalize :: "sim \<Rightarrow> sim" where
  "iplc_sim_finalize s =
     (if \<not> all_nop s then iplc_sim_finalize (iplc_sim_push_pipeline_stage s) else s)"
  by pat_completeness auto
termination
  by (relation "measure drain_distance") (simp_all add: drain_distance_push)

declare iplc_sim_finalize.simps [simp del]

section \<open>The trace parser\<close>

text \<open>
  \<open>sscanf\<close> with the conversions \<open>%x\<close> and \<open>%s\<close>. White space is what \<open>isspace\<close>
  accepts. \<open>%s\<close> skips white space and reads the characters up to the next white space;
  it fails at the end of the input. \<open>%x\<close> skips white space and reads an optional
  sign, an optional \<open>0x\<close> and hexadecimal digits; it fails when there is no digit. The
  value is stored in an \<open>unsigned int\<close> (a value that does not fit is taken modulo
  \<open>2 ^ 32\<close> here; C leaves it undefined). The buffers of the program hold 16 bytes;
  longer words overflow them in C and are not cut here.
\<close>

definition is_space :: "char \<Rightarrow> bool" where
  "is_space c \<longleftrightarrow> c \<in> set [CHR '' '', CHR 0x09, CHR 0x0A, CHR 0x0B, CHR 0x0C, CHR 0x0D]"

definition digit_of :: "nat \<Rightarrow> char \<Rightarrow> nat option" where
  "digit_of base c =
     (let n = (of_char c :: nat);
          d = (if 48 \<le> n \<and> n \<le> 57 then Some (n - 48)
               else if 97 \<le> n \<and> n \<le> 102 then Some (n - 87)
               else if 65 \<le> n \<and> n \<le> 70 then Some (n - 55)
               else None)
      in case d of Some v \<Rightarrow> (if v < base then Some v else None) | None \<Rightarrow> None)"

definition digit_val :: "nat \<Rightarrow> char \<Rightarrow> nat" where
  "digit_val base c = (case digit_of base c of Some v \<Rightarrow> v | None \<Rightarrow> 0)"

definition is_digit :: "nat \<Rightarrow> char \<Rightarrow> bool" where
  "is_digit base c \<longleftrightarrow> digit_of base c \<noteq> None"

text \<open>An optional sign: whether it is a minus, and the rest of the input.\<close>

fun scan_sign :: "string \<Rightarrow> bool \<times> string" where
  "scan_sign [] = (False, [])"
| "scan_sign (c # cs) =
     (if c = CHR ''-'' then (True, cs) else if c = CHR ''+'' then (False, cs) else (False, c # cs))"

text \<open>The digits at the front of the input, and their value in the base.\<close>

definition scan_digits :: "nat \<Rightarrow> string \<Rightarrow> nat \<times> string \<times> string" where
  "scan_digits base inp =
     (let ds = takeWhile (is_digit base) inp
      in (foldl (\<lambda>a c. base * a + digit_val base c) 0 ds, ds, dropWhile (is_digit base) inp))"

fun skip_0x :: "string \<Rightarrow> string" where
  "skip_0x (c0 # cx # cs) =
     (if c0 = CHR ''0'' \<and> (cx = CHR ''x'' \<or> cx = CHR ''X'') then cs else c0 # cx # cs)"
| "skip_0x cs = cs"

definition scan_hex :: "string \<Rightarrow> (uint \<times> string) option" where
  "scan_hex inp =
     (let (neg, r1) = scan_sign (dropWhile is_space inp);
          (v, ds, rest) = scan_digits 16 (skip_0x r1)
      in if ds = [] then None
         else Some (if neg then - of_nat v else of_nat v, rest))"

definition scan_word :: "string \<Rightarrow> (string \<times> string) option" where
  "scan_word inp =
     (let r = dropWhile is_space inp;
          w = takeWhile (\<lambda>c. \<not> is_space c) r
      in if w = [] then None else Some (w, dropWhile (\<lambda>c. \<not> is_space c) r))"

text \<open>
  \<open>atoi\<close>: white space, an optional sign, decimal digits. The result is an \<open>int\<close>
  (a value that does not fit is cut to 32 bits here; C leaves it undefined).
\<close>

definition atoi :: "string \<Rightarrow> int" where
  "atoi str =
     (let (neg, r1) = scan_sign (dropWhile is_space str);
          (v, ds, rest) = scan_digits 10 r1
      in sint (word_of_int (if neg then - int v else int v) :: 32 word))"

text \<open>
  \<open>iplc_sim_parse_reg\<close>: a comma at the end becomes a newline, a \<open>$\<close> at the front is
  dropped, and \<open>atoi\<close> reads the number.
\<close>

definition iplc_sim_parse_reg :: "string \<Rightarrow> int" where
  "iplc_sim_parse_reg reg_str =
     (let r = (if reg_str \<noteq> [] \<and> last reg_str = CHR '','' then butlast reg_str @ [CHR 0x0A]
               else reg_str)
      in case r of
           [] \<Rightarrow> atoi r
         | c # cs \<Rightarrow> if c \<noteq> CHR ''$'' then atoi r else atoi cs)"

text \<open>\<open>strncmp(instruction, p, strlen(p)) == 0\<close>\<close>

definition has_prefix :: "string \<Rightarrow> string \<Rightarrow> bool" where
  "has_prefix p str \<longleftrightarrow> take (length p) str = p"

text \<open>
  \<open>iplc_sim_parse_instruction\<close>. \<open>rest\<close> is the input after the address and the
  mnemonic, from which the later calls of \<open>sscanf\<close> read the operands. On a miss of the
  instruction address the loop
  \<^verbatim>\<open>for (i = pipeline_cycles, j = pipeline_cycles; i < j + CACHE_MISS_DELAY - 1; i++)\<close>
  pushes \<open>CACHE_MISS_DELAY - 1\<close> times: \<open>i\<close> and \<open>j\<close> are locals and only \<open>i\<close> changes.
\<close>

definition iplc_sim_parse_instruction :: "sim \<Rightarrow> string \<Rightarrow> sim_error + sim" where
  "iplc_sim_parse_instruction s buffer =
     (case scan_hex buffer of
        None \<Rightarrow> Inl Malformed_instruction
      | Some (address, r1) \<Rightarrow>
     (case scan_word r1 of
        None \<Rightarrow> Inl Malformed_instruction
      | Some (instruction, rest) \<Rightarrow>
     (let s1 = s\<lparr>cur_instruction_address := address\<rparr>;
          (instruction_hit, s2) = iplc_sim_trap_address s1 address;
          s3 = (if instruction_hit = 0
                then (iplc_sim_push_pipeline_stage ^^ (CACHE_MISS_DELAY - 1)) s2 else s2)
      in
        if has_prefix ''add'' instruction \<or> has_prefix ''sll'' instruction \<or>
           has_prefix ''ori'' instruction then
          (case scan_word rest of None \<Rightarrow> Inl Malformed_rtype | Some (str_dest_reg, r2) \<Rightarrow>
           case scan_word r2 of None \<Rightarrow> Inl Malformed_rtype | Some (str_src_reg, r3) \<Rightarrow>
           case scan_word r3 of None \<Rightarrow> Inl Malformed_rtype | Some (str_src_reg2, r4) \<Rightarrow>
             Inr (iplc_sim_process_pipeline_rtype s3 instruction (iplc_sim_parse_reg str_dest_reg)
                    (iplc_sim_parse_reg str_src_reg) (iplc_sim_parse_reg str_src_reg2)))
        else if has_prefix ''lui'' instruction then
          (case scan_word rest of None \<Rightarrow> Inl Malformed_rtype | Some (str_dest_reg, r2) \<Rightarrow>
           case scan_word r2 of None \<Rightarrow> Inl Malformed_rtype | Some (str_constant, r3) \<Rightarrow>
             Inr (iplc_sim_process_pipeline_rtype s3 instruction (iplc_sim_parse_reg str_dest_reg)
                    (- 1) (- 1)))
        else if has_prefix ''lw'' instruction \<or> has_prefix ''sw'' instruction then
          (case scan_word rest of None \<Rightarrow> Inl Bad_instruction | Some (reg1, r2) \<Rightarrow>
           case scan_word r2 of None \<Rightarrow> Inl Bad_instruction | Some (offsetwithreg, r3) \<Rightarrow>
           case scan_hex r3 of None \<Rightarrow> Inl Bad_instruction | Some (data_address, r4) \<Rightarrow>
             Inr (if has_prefix ''lw'' instruction
                  then iplc_sim_process_pipeline_lw s3 (iplc_sim_parse_reg reg1) (- 1) data_address
                  else iplc_sim_process_pipeline_sw s3 (iplc_sim_parse_reg reg1) (- 1) data_address))
        else if has_prefix ''beq'' instruction then
          Inr (iplc_sim_process_pipeline_branch s3 (- 1) (- 1))
        else if has_prefix ''jal'' instruction \<or> has_prefix ''jr'' instruction \<or>
                has_prefix ''j'' instruction then
          Inr (iplc_sim_process_pipeline_jump s3 instruction)
        else if has_prefix ''syscall'' instruction then
          Inr (iplc_sim_process_pipeline_syscall s3)
        else if has_prefix ''nop'' instruction then
          Inr (iplc_sim_process_pipeline_nop s3)
        else Inl Unknown_instruction)))"

text \<open>
  \<open>main\<close>: the configuration, then every line of the trace (as \<open>fgets\<close> delivers
  them), then \<open>iplc_sim_finalize\<close>. The first error ends the run.
\<close>

fun parse_lines :: "sim \<Rightarrow> string list \<Rightarrow> sim_error + sim" where
  "parse_lines s [] = Inr s"
| "parse_lines s (buffer # trace) =
     (case iplc_sim_parse_instruction s buffer of
        Inl e \<Rightarrow> Inl e
      | Inr s' \<Rightarrow> parse_lines s' trace)"

definition iplc_sim_main :: "int \<Rightarrow> int \<Rightarrow> int \<Rightarrow> uint \<Rightarrow> string list \<Rightarrow> sim_error + sim" where
  "iplc_sim_main index blocksize assoc bpt trace =
     (case iplc_sim_init (startup bpt) index blocksize assoc of
        Inl e \<Rightarrow> Inl e
      | Inr s \<Rightarrow>
          (case parse_lines s trace of
             Inl e \<Rightarrow> Inl e
           | Inr s' \<Rightarrow> Inr (iplc_sim_finalize s')))"

section \<open>Sequences of pipeline operations\<close>

text \<open>
  What the front end does to the simulator, one operation at a time: a probe of the
  cache, an advance (\<open>iplc_sim_push_pipeline_stage\<close>), or the push of a descriptor by
  one of the functions \<open>iplc_sim_process_pipeline_*\<close>, whose first argument here is the
  instruction address that \<open>iplc_sim_parse_instruction\<close> has stored in the global
  \<open>instruction_address\<close> before the call.
\<close>

datatype pipeline_op =
    Probe uint
  | Advance
  | Push_rtype uint string int int int
  | Push_lw uint int int uint
  | Push_sw uint int int uint
  | Push_branch uint int int
  | Push_jump uint string
  | Push_syscall uint
  | Push_nop uint

fun apply_op :: "sim \<Rightarrow> pipeline_op \<Rightarrow> sim" where
  "apply_op s (Probe a) = snd (iplc_sim_trap_address s a)"
| "apply_op s Advance = iplc_sim_push_pipeline_stage s"
| "apply_op s (Push_rtype a instruction dest_reg reg1 reg2_or_constant) =
     iplc_sim_process_pipeline_rtype (s\<lparr>cur_instruction_address := a\<rparr>)
       instruction dest_reg reg1 reg2_or_constant"
| "apply_op s (Push_lw a dest_reg base_reg data_address) =
     iplc_sim_process_pipeline_lw (s\<lparr>cur_instruction_address := a\<rparr>) dest_reg base_reg data_address"
| "apply_op s (Push_sw a src_reg base_reg data_address) =
     iplc_sim_process_pipeline_sw (s\<lparr>cur_instruction_address := a\<rparr>) src_reg base_reg data_address"
| "apply_op s (Push_branch a reg1 reg2) =
     iplc_sim_process_pipeline_branch (s\<lparr>cur_instruction_address := a\<rparr>) reg1 reg2"
| "apply_op s (Push_jump a instruction) =
     iplc_sim_process_pipeline_jump (s\<lparr>cur_instruction_address := a\<rparr>) instruction"
| "apply_op s (Push_syscall a) = iplc_sim_process_pipeline_syscall (s\<lparr>cur_instruction_address := a\<rparr>)"
| "apply_op s (Push_nop a) = iplc_sim_process_pipeline_nop (s\<lparr>cur_instruction_address := a\<rparr>)"

definition apply_ops :: "sim \<Rightarrow> pipeline_op list \<Rightarrow> sim" where
  "apply_ops s ops = foldl apply_op s ops"

fun is_branch_push :: "pipeline_op \<Rightarrow> bool" where
  "is_branch_push (Push_branch a reg1 reg2) = True"
| "is_branch_push _ = False"

definition branches_pushed :: "pipeline_op list \<Rightarrow> nat" where
  "branches_pushed ops = length (filter is_branch_push ops)"

text \<open>Branches in \<open>FETCH\<close> and \<open>DECODE\<close>: their prediction is not resolved yet.\<close>

definition pending_branches :: "sim \<Rightarrow> nat" where
  "pending_branches s =
     (if itype (pipeline s FETCH) = BRANCH then 1 else 0) +
     (if itype (pipeline s DECODE) = BRANCH then 1 else 0)"

lemma apply_ops_simps [simp]:
  "apply_ops s [] = s"
  "apply_ops s (ops @ [x]) = apply_op (apply_ops s ops) x"
  "apply_ops s (x # ops) = apply_ops (apply_op s x) ops"
  by (simp_all add: apply_ops_def)

lemma unat_Suc_le: "unat (c + 1 :: uint) \<le> unat c + 1"
  by (metis add.commute unat_word_ariths(1) mod_less_eq_dividend unsigned_1)

lemma push_stage_pending:
  "unat (correct_branch_predictions (iplc_sim_push_pipeline_stage s)) +
     pending_branches (iplc_sim_push_pipeline_stage s)
   \<le> unat (correct_branch_predictions s) + pending_branches s"
  using unat_Suc_le [of "correct_branch_predictions s"]
  by (simp add: push_stage_fields pending_branches_def shift_stages_def zero_stage_def)

lemma fetch_upd_fields [simp]:
  "pipeline (s\<lparr>cur_instruction_address := a\<rparr>) = pipeline s"
  "correct_branch_predictions (s\<lparr>cur_instruction_address := a\<rparr>) = correct_branch_predictions s"
  "branch_count (s\<lparr>cur_instruction_address := a\<rparr>) = branch_count s"
  by simp_all

lemma push_stage_cur_upd:
  "correct_branch_predictions (iplc_sim_push_pipeline_stage (s\<lparr>cur_instruction_address := a\<rparr>)) =
     correct_branch_predictions (iplc_sim_push_pipeline_stage s)"
  "pipeline (iplc_sim_push_pipeline_stage (s\<lparr>cur_instruction_address := a\<rparr>)) =
     pipeline (iplc_sim_push_pipeline_stage s)"
  "branch_count (iplc_sim_push_pipeline_stage (s\<lparr>cur_instruction_address := a\<rparr>)) = branch_count s"
  "instruction_count (iplc_sim_push_pipeline_stage (s\<lparr>cur_instruction_address := a\<rparr>)) =
     instruction_count (iplc_sim_push_pipeline_stage s)"
  by (simp_all add: push_stage_fields branch_taken_def)

lemma apply_op_branch_count:
  "branch_count (apply_op s x) = branch_count s + (if is_branch_push x then 1 else 0)"
  by (cases x)
     (simp_all add: trap_address_frame push_stage_fields iplc_sim_process_pipeline_rtype_def
        iplc_sim_process_pipeline_lw_def iplc_sim_process_pipeline_sw_def
        iplc_sim_process_pipeline_branch_def iplc_sim_process_pipeline_jump_def
        iplc_sim_process_pipeline_syscall_def iplc_sim_process_pipeline_nop_def Let_def)

lemma apply_op_pending:
  "unat (correct_branch_predictions (apply_op s x)) + pending_branches (apply_op s x)
   \<le> unat (correct_branch_predictions s) + pending_branches s + (if is_branch_push x then 1 else 0)"
proof (cases "\<exists>a. x = Probe a")
  case True
  then show ?thesis
    by (auto simp: trap_address_frame pending_branches_def)
next
  case False
  let ?p = "iplc_sim_push_pipeline_stage s"
  define q :: nat where "q = (if itype (pipeline ?p DECODE) = BRANCH then 1 else 0)"
  have pp: "pending_branches ?p = q"
    by (simp add: q_def pending_branches_def push_stage_fields shift_stages_def zero_stage_def)
  from False have "correct_branch_predictions (apply_op s x) = correct_branch_predictions ?p \<and>
      pending_branches (apply_op s x) = q + (if is_branch_push x then 1 else 0)"
    by (cases x)
       (simp_all add: q_def pending_branches_def push_stage_cur_upd Let_def
          iplc_sim_process_pipeline_rtype_def iplc_sim_process_pipeline_lw_def
          iplc_sim_process_pipeline_sw_def iplc_sim_process_pipeline_branch_def
          iplc_sim_process_pipeline_jump_def iplc_sim_process_pipeline_syscall_def
          iplc_sim_process_pipeline_nop_def push_stage_fields(1) shift_stages_def zero_stage_def)
  with push_stage_pending [of s] pp show ?thesis
    by simp
qed

lemma apply_ops_branch_count:
  "branch_count (apply_ops s ops) = branch_count s + of_nat (branches_pushed ops)"
  by (induction ops rule: rev_induct) (simp_all add: apply_op_branch_count branches_pushed_def)

lemma apply_ops_pending:
  "unat (correct_branch_predictions (apply_ops s ops)) + pending_branches (apply_ops s ops)
   \<le> unat (correct_branch_predictions s) + pending_branches s + branches_pushed ops"
proof (induction ops rule: rev_induct)
  case Nil
  then show ?case by (simp add: branches_pushed_def)
next
  case (snoc x ops)
  from apply_op_pending [of "apply_ops s ops" x] snoc show ?case
    by (auto simp: branches_pushed_def split: if_splits)
qed

text \<open>
  C7. After any sequence of probes, advances and pushes from the state that
  \<open>iplc_sim_init\<close> returns, \<open>branch_count\<close> is the number of \<open>BRANCH\<close> descriptors
  pushed so far, as an \<open>unsigned int\<close>: modulo \<open>2 ^ 32\<close>. While fewer than \<open>2 ^ 32\<close> of
  them have been pushed, it is that number, and \<open>correct_branch_predictions\<close> is at
  most \<open>branch_count\<close>.
\<close>

theorem branch_accounting:
  assumes "iplc_sim_init (startup bpt) index blocksize assoc = Inr s0"
    and "s = apply_ops s0 ops"
  shows "branch_count s = of_nat (branches_pushed ops) \<and>
         (branches_pushed ops < 2 ^ 32 \<longrightarrow>
            unat (branch_count s) = branches_pushed ops \<and>
            correct_branch_predictions s \<le> branch_count s)"
proof -
  have i: "branch_count s0 = 0" "correct_branch_predictions s0 = 0" "pending_branches s0 = 0"
    by (simp_all add: init_fields [OF assms(1)] startup_def globals0_def pending_branches_def zero_stage_def)
  have b: "branch_count s = of_nat (branches_pushed ops)"
    by (simp add: assms(2) apply_ops_branch_count i)
  have "unat (branch_count s) = branches_pushed ops \<and> correct_branch_predictions s \<le> branch_count s"
    if "branches_pushed ops < 2 ^ 32"
  proof -
    from that have u: "unat (branch_count s) = branches_pushed ops"
      by (simp add: b unat_of_nat take_bit_nat_eq_self)
    from apply_ops_pending [of s0 ops] have "unat (correct_branch_predictions s) \<le> branches_pushed ops"
      by (simp add: assms(2) i)
    with u show ?thesis
      by (simp add: word_le_nat_alt)
  qed
  with b show ?thesis by blast
qed

theorem branch_accounting_witness:
  "iplc_sim_init (startup 0) 1 1 2 = Inr example_config \<and>
   branches_pushed [Push_branch 0x1000 (- 1) (- 1), Push_nop 0x1004, Advance] = 1 \<and>
   branch_count (apply_ops example_config [Push_branch 0x1000 (- 1) (- 1), Push_nop 0x1004, Advance]) = 1 \<and>
   correct_branch_predictions (apply_ops example_config [Push_branch 0x1000 (- 1) (- 1), Push_nop 0x1004, Advance])
     \<le> branch_count (apply_ops example_config [Push_branch 0x1000 (- 1) (- 1), Push_nop 0x1004, Advance])"
proof -
  have n: "branches_pushed [Push_branch 0x1000 (- 1) (- 1), Push_nop 0x1004, Advance] = 1"
    by (simp add: branches_pushed_def)
  from branch_accounting [OF example_init refl,
      of "[Push_branch 0x1000 (- 1) (- 1), Push_nop 0x1004, Advance]"] n example_init
  show ?thesis
    by (auto simp del: apply_ops_simps)
qed

text \<open>
  The counters are \<open>unsigned int\<close>. A trace of \<open>2 ^ 32\<close> taken branches, with the
  prediction "taken", brings \<open>branch_count\<close> back to 0 while
  \<open>correct_branch_predictions\<close> is \<open>2 ^ 32 - 2\<close>: the first two branches are still in
  \<open>FETCH\<close> and \<open>DECODE\<close>.
\<close>

definition branch_stage :: "uint \<Rightarrow> pipeline_t" where
  "branch_stage a = \<lparr>itype = BRANCH, instruction_address = a, stage = Stage_branch (- 1) (- 1)\<rparr>"

text \<open>
  A pipeline that holds the same taken branch in \<open>FETCH\<close> and \<open>DECODE\<close>, no memory
  access behind them, and the prediction "taken".
\<close>

definition branch_loop :: "uint \<Rightarrow> sim \<Rightarrow> bool" where
  "branch_loop a s \<longleftrightarrow>
     branch_predict_taken s = 1 \<and>
     pipeline s FETCH = branch_stage a \<and> pipeline s DECODE = branch_stage a \<and>
     itype (pipeline s ALU) \<in> {NOP, BRANCH} \<and> itype (pipeline s MEM) \<in> {NOP, BRANCH}"

lemma branch_loop_step:
  assumes "branch_loop a s"
  shows "branch_loop a (apply_op s (Push_branch a (- 1) (- 1)))"
    and "correct_branch_predictions (apply_op s (Push_branch a (- 1) (- 1))) =
           correct_branch_predictions s + 1"
    and "branch_count (apply_op s (Push_branch a (- 1) (- 1))) = branch_count s + 1"
  using assms
  by (auto simp: branch_loop_def iplc_sim_process_pipeline_branch_def Let_def push_stage_fields
      branch_taken_def shift_stages_def branch_stage_def)

lemma branch_loop_iterate:
  assumes "branch_loop a s"
  shows "branch_loop a (apply_ops s (replicate n (Push_branch a (- 1) (- 1)))) \<and>
         correct_branch_predictions (apply_ops s (replicate n (Push_branch a (- 1) (- 1)))) =
           correct_branch_predictions s + of_nat n \<and>
         branch_count (apply_ops s (replicate n (Push_branch a (- 1) (- 1)))) =
           branch_count s + of_nat n"
  using assms
proof (induction n arbitrary: s)
  case 0
  then show ?case by simp
next
  case (Suc n)
  note st = branch_loop_step [OF Suc.prems]
  from Suc.IH [OF st(1)] st(2,3) show ?case
    by (simp del: apply_op.simps)
qed

definition taken_config :: sim where
  "taken_config =
     (startup 1)\<lparr>cache := replicate 2 (initial_cache_set 2), cache_index := 1, cache_blocksize := 1,
                 cache_blockoffsetbits := 2, cache_assoc := 2, pipeline := (\<lambda>_. zero_stage)\<rparr>"

lemma taken_init: "iplc_sim_init (startup 1) 1 1 2 = Inr taken_config"
  by (simp add: iplc_sim_init_def taken_config_def rint_log2_4 cache_size_of_def MAX_CACHE_SIZE_def)

lemma taken_two:
  "branch_loop 0x1000 (apply_ops taken_config [Push_branch 0x1000 (- 1) (- 1), Push_branch 0x1000 (- 1) (- 1)])"
  "correct_branch_predictions (apply_ops taken_config [Push_branch 0x1000 (- 1) (- 1), Push_branch 0x1000 (- 1) (- 1)]) = 0"
  "branch_count (apply_ops taken_config [Push_branch 0x1000 (- 1) (- 1), Push_branch 0x1000 (- 1) (- 1)]) = 2"
  by (simp_all add: taken_config_def startup_def globals0_def branch_loop_def
      iplc_sim_process_pipeline_branch_def Let_def push_stage_fields
      branch_taken_def shift_stages_def branch_stage_def zero_stage_def)

lemma apply_ops_append: "apply_ops s (xs @ ys) = apply_ops (apply_ops s xs) ys"
  by (simp add: apply_ops_def)

theorem branch_accounting_counterexample:
  "iplc_sim_init (startup 1) 1 1 2 = Inr taken_config \<and>
   branches_pushed (replicate (2 ^ 32) (Push_branch 0x1000 (- 1) (- 1))) = 2 ^ 32 \<and>
   branch_count (apply_ops taken_config (replicate (2 ^ 32) (Push_branch 0x1000 (- 1) (- 1)))) = 0 \<and>
   correct_branch_predictions
     (apply_ops taken_config (replicate (2 ^ 32) (Push_branch 0x1000 (- 1) (- 1)))) = 0xFFFFFFFE \<and>
   \<not> correct_branch_predictions
         (apply_ops taken_config (replicate (2 ^ 32) (Push_branch 0x1000 (- 1) (- 1))))
       \<le> branch_count (apply_ops taken_config (replicate (2 ^ 32) (Push_branch 0x1000 (- 1) (- 1))))"
proof -
  let ?P = "Push_branch 0x1000 (- 1) (- 1)"
  let ?n = "4294967294 :: nat"
  have r: "replicate (2 ^ 32) ?P = [?P, ?P] @ replicate ?n ?P"
  proof -
    have "(2 :: nat) ^ 32 = 2 + ?n" by simp
    then have "replicate (2 ^ 32) ?P = replicate (2 + ?n) ?P" by (simp only:)
    also have "\<dots> = replicate 2 ?P @ replicate ?n ?P" by (rule replicate_add)
    also have "replicate 2 ?P = [?P, ?P]" by (simp add: numeral_2_eq_2)
    finally show ?thesis .
  qed
  let ?s2 = "apply_ops taken_config [?P, ?P]"
  note it = branch_loop_iterate [OF taken_two(1), of ?n]
  have "branch_count (apply_ops ?s2 (replicate ?n ?P)) = branch_count ?s2 + of_nat ?n"
    using it by blast
  also have "\<dots> = 2 + of_nat ?n"
    by (simp only: taken_two)
  also have "\<dots> = 0"
    by simp
  finally have b: "branch_count (apply_ops taken_config (replicate (2 ^ 32) ?P)) = 0"
    by (simp only: r apply_ops_append)
  have "correct_branch_predictions (apply_ops ?s2 (replicate ?n ?P)) =
          correct_branch_predictions ?s2 + of_nat ?n"
    using it by blast
  also have "\<dots> = 0 + of_nat ?n"
    by (simp only: taken_two)
  also have "\<dots> = 0xFFFFFFFE"
    by simp
  finally have c: "correct_branch_predictions (apply_ops taken_config (replicate (2 ^ 32) ?P)) = 0xFFFFFFFE"
    by (simp only: r apply_ops_append)
  have n: "branches_pushed (replicate (2 ^ 32) ?P) = 2 ^ 32"
    by (simp add: branches_pushed_def)
  from taken_init n show ?thesis
    unfolding b c by simp
qed

section \<open>Instructions that retire\<close>

text \<open>Operations that advance the pipeline by one step: all but the probe.\<close>

fun is_shift :: "pipeline_op \<Rightarrow> bool" where
  "is_shift (Probe a) = False"
| "is_shift _ = True"

definition shifts :: "pipeline_op list \<Rightarrow> nat" where
  "shifts ops = length (filter is_shift ops)"

fun stage_at :: "nat \<Rightarrow> pipeline_stages" where
  "stage_at 0 = FETCH"
| "stage_at (Suc 0) = DECODE"
| "stage_at (Suc (Suc 0)) = ALU"
| "stage_at (Suc (Suc (Suc 0))) = MEM"
| "stage_at _ = WRITEBACK"

text \<open>
  The pushes that put an instruction with a nonzero address into \<open>FETCH\<close>: every push
  but the one of a \<open>NOP\<close>.
\<close>

fun is_retiring :: "pipeline_op \<Rightarrow> bool" where
  "is_retiring (Probe a) = False"
| "is_retiring Advance = False"
| "is_retiring (Push_rtype a instruction dest_reg reg1 reg2) = (a \<noteq> 0)"
| "is_retiring (Push_lw a dest_reg base_reg data_address) = (a \<noteq> 0)"
| "is_retiring (Push_sw a src_reg base_reg data_address) = (a \<noteq> 0)"
| "is_retiring (Push_branch a reg1 reg2) = (a \<noteq> 0)"
| "is_retiring (Push_jump a instruction) = (a \<noteq> 0)"
| "is_retiring (Push_syscall a) = (a \<noteq> 0)"
| "is_retiring (Push_nop a) = False"

definition retiring :: "pipeline_op list \<Rightarrow> nat" where
  "retiring ops = length (filter is_retiring ops)"

definition occupied :: "sim \<Rightarrow> nat" where
  "occupied s =
     (if instruction_address (pipeline s FETCH) \<noteq> 0 then 1 else 0) +
     (if instruction_address (pipeline s DECODE) \<noteq> 0 then 1 else 0) +
     (if instruction_address (pipeline s ALU) \<noteq> 0 then 1 else 0) +
     (if instruction_address (pipeline s MEM) \<noteq> 0 then 1 else 0) +
     (if instruction_address (pipeline s WRITEBACK) \<noteq> 0 then 1 else 0)"

definition addressed_not_nop :: "sim \<Rightarrow> bool" where
  "addressed_not_nop s \<longleftrightarrow>
     (\<forall>st. instruction_address (pipeline s st) \<noteq> 0 \<longrightarrow> itype (pipeline s st) \<noteq> NOP)"

lemmas process_defs =
  iplc_sim_process_pipeline_rtype_def iplc_sim_process_pipeline_lw_def
  iplc_sim_process_pipeline_sw_def iplc_sim_process_pipeline_branch_def
  iplc_sim_process_pipeline_jump_def iplc_sim_process_pipeline_syscall_def
  iplc_sim_process_pipeline_nop_def

lemma nop_fetch_zero: "pipeline (iplc_sim_process_pipeline_nop s) FETCH = zero_stage"
  by (simp add: iplc_sim_process_pipeline_nop_def push_stage_fields shift_stages_def)

lemma apply_op_shift:
  assumes "is_shift x" "n < 4"
  shows "pipeline (apply_op s x) (stage_at (Suc n)) = pipeline s (stage_at n)"
proof -
  from assms(2) consider "n = 0" | "n = 1" | "n = 2" | "n = 3" by linarith
  then show ?thesis
    using assms(1)
    by cases
       (cases x; simp add: process_defs Let_def push_stage_fields shift_stages_def
          push_stage_cur_upd numeral_2_eq_2 numeral_3_eq_3)+
qed

lemma apply_op_probe_pipeline: "\<not> is_shift x \<Longrightarrow> pipeline (apply_op s x) = pipeline s"
  by (cases x) (simp_all add: trap_address_frame)

lemma apply_ops_shift:
  "j + shifts ops \<le> 4 \<Longrightarrow>
   pipeline (apply_ops s ops) (stage_at (j + shifts ops)) = pipeline s (stage_at j)"
proof (induction ops rule: rev_induct)
  case Nil
  then show ?case by (simp add: shifts_def)
next
  case (snoc x ops)
  show ?case
  proof (cases "is_shift x")
    case True
    with snoc.prems have "j + shifts ops < 4"
      by (simp add: shifts_def)
    with snoc.IH True apply_op_shift [OF True, of "j + shifts ops" "apply_ops s ops"]
    show ?thesis
      by (simp add: shifts_def)
  next
    case False
    with snoc show ?thesis
      by (simp add: shifts_def apply_op_probe_pipeline)
  qed
qed

lemma push_stage_occupied:
  "instruction_count (iplc_sim_push_pipeline_stage s) + of_nat (occupied (iplc_sim_push_pipeline_stage s)) =
     instruction_count s + of_nat (occupied s)"
  by (simp add: push_stage_fields occupied_def shift_stages_def zero_stage_def)

lemma push_stage_addressed:
  "addressed_not_nop s \<Longrightarrow> addressed_not_nop (iplc_sim_push_pipeline_stage s)"
  unfolding addressed_not_nop_def push_stage_fields
  by (auto simp: shift_stages_def zero_stage_def split: pipeline_stages.splits)

lemma occupied_cur_upd [simp]:
  "occupied (s\<lparr>cur_instruction_address := a\<rparr>) = occupied s"
  "addressed_not_nop (s\<lparr>cur_instruction_address := a\<rparr>) = addressed_not_nop s"
  by (simp_all add: occupied_def addressed_not_nop_def)

lemma occupied_fetch:
  "instruction_address (pipeline s FETCH) = 0 \<Longrightarrow>
   occupied (s\<lparr>pipeline := (pipeline s)(FETCH := d)\<rparr>) =
     occupied s + (if instruction_address d \<noteq> 0 then 1 else 0)"
  by (simp add: occupied_def)

lemma addressed_fetch:
  "addressed_not_nop s \<Longrightarrow> itype d \<noteq> NOP \<Longrightarrow>
   addressed_not_nop (s\<lparr>pipeline := (pipeline s)(FETCH := d)\<rparr>)"
  by (simp add: addressed_not_nop_def)

lemma occupied_branch_count [simp]:
  "occupied (s\<lparr>branch_count := b, pipeline := p\<rparr>) = occupied (s\<lparr>pipeline := p\<rparr>)"
  "addressed_not_nop (s\<lparr>branch_count := b, pipeline := p\<rparr>) = addressed_not_nop (s\<lparr>pipeline := p\<rparr>)"
  by (simp_all add: occupied_def addressed_not_nop_def)

lemma apply_op_occupied:
  "instruction_count (apply_op s x) + of_nat (occupied (apply_op s x)) =
     instruction_count s + of_nat (occupied s) + (if is_retiring x then 1 else 0)"
proof -
  let ?p = "\<lambda>a. iplc_sim_push_pipeline_stage (s\<lparr>cur_instruction_address := a\<rparr>)"
  have z: "instruction_address (pipeline (?p a) FETCH) = 0" for a
    by (simp add: push_stage_fields shift_stages_def zero_stage_def)
  have c: "cur_instruction_address (?p a) = a" for a
    by (simp add: push_stage_fields)
  have o: "instruction_count (?p a) + of_nat (occupied (?p a)) = instruction_count s + of_nat (occupied s)" for a
    using push_stage_occupied [of "s\<lparr>cur_instruction_address := a\<rparr>"] by simp
  show ?thesis
  proof (cases x)
    case (Probe a)
    then show ?thesis by (simp add: trap_address_frame occupied_def)
  next
    case Advance
    then show ?thesis by (simp add: push_stage_occupied)
  next
    case (Push_nop a)
    with o [of a] show ?thesis by (simp add: iplc_sim_process_pipeline_nop_def)
  next
    case (Push_rtype a i d r1 r2)
    with o [of a] show ?thesis
      by (auto simp: iplc_sim_process_pipeline_rtype_def Let_def occupied_fetch [OF z] c add.assoc)
  next
    case (Push_lw a d b da)
    with o [of a] show ?thesis
      by (auto simp: iplc_sim_process_pipeline_lw_def Let_def occupied_fetch [OF z] c add.assoc)
  next
    case (Push_sw a d b da)
    with o [of a] show ?thesis
      by (auto simp: iplc_sim_process_pipeline_sw_def Let_def occupied_fetch [OF z] c add.assoc)
  next
    case (Push_branch a r1 r2)
    with o [of a] show ?thesis
      by (auto simp: iplc_sim_process_pipeline_branch_def Let_def occupied_fetch [OF z] c add.assoc)
  next
    case (Push_jump a i)
    with o [of a] show ?thesis
      by (auto simp: iplc_sim_process_pipeline_jump_def Let_def occupied_fetch [OF z] c add.assoc)
  next
    case (Push_syscall a)
    with o [of a] show ?thesis
      by (auto simp: iplc_sim_process_pipeline_syscall_def Let_def occupied_fetch [OF z] c add.assoc)
  qed
qed

lemma apply_op_addressed:
  "addressed_not_nop s \<Longrightarrow> addressed_not_nop (apply_op s x)"
proof -
  assume a: "addressed_not_nop s"
  have p: "addressed_not_nop (iplc_sim_push_pipeline_stage (s\<lparr>cur_instruction_address := b\<rparr>))" for b
    using a by (intro push_stage_addressed) simp
  show ?thesis
  proof (cases x)
    case (Probe b)
    with a show ?thesis by (simp add: addressed_not_nop_def trap_address_frame)
  next
    case Advance
    with a show ?thesis by (simp add: push_stage_addressed)
  qed (use p in \<open>simp_all add: process_defs Let_def addressed_fetch\<close>)
qed

lemma apply_ops_occupied:
  "instruction_count (apply_ops s ops) + of_nat (occupied (apply_ops s ops)) =
     instruction_count s + of_nat (occupied s) + of_nat (retiring ops)"
proof (induction ops rule: rev_induct)
  case Nil
  then show ?case by (simp add: retiring_def)
next
  case (snoc x ops)
  from apply_op_occupied [of "apply_ops s ops" x] snoc show ?case
    by (simp add: retiring_def)
qed

lemma apply_ops_addressed: "addressed_not_nop s \<Longrightarrow> addressed_not_nop (apply_ops s ops)"
  by (induction ops rule: rev_induct) (simp_all add: apply_op_addressed)

lemma finalize_drained:
  "all_nop (iplc_sim_finalize s) \<and>
   (addressed_not_nop s \<longrightarrow> addressed_not_nop (iplc_sim_finalize s)) \<and>
   instruction_count (iplc_sim_finalize s) + of_nat (occupied (iplc_sim_finalize s)) =
     instruction_count s + of_nat (occupied s)"
proof (induction s rule: iplc_sim_finalize.induct)
  case (1 s)
  show ?case
  proof (cases "all_nop s")
    case True
    then show ?thesis
      by (simp add: iplc_sim_finalize.simps [of s])
  next
    case False
    with "1" push_stage_addressed [of s] push_stage_occupied [of s] show ?thesis
      by (simp add: iplc_sim_finalize.simps [of s])
  qed
qed

lemma all_nop_occupied: "all_nop s \<Longrightarrow> addressed_not_nop s \<Longrightarrow> occupied s = 0"
  by (auto simp: all_nop_def addressed_not_nop_def occupied_def)

text \<open>
  C10. \<open>iplc_sim_process_pipeline_nop\<close> only advances the pipeline, and the advance
  leaves \<open>FETCH\<close> zeroed: kind \<open>NOP\<close>, instruction address 0. Four advances later this
  entry is in \<open>WRITEBACK\<close>, and the advance that retires it does not count it. In a
  whole run, from \<open>iplc_sim_init\<close> to the end of \<open>iplc_sim_finalize\<close>,
  \<open>instruction_count\<close> is the number of pushes other than \<open>nop\<close> whose instruction
  address is not 0: no \<open>nop\<close> is ever counted.
\<close>

theorem nop_never_retires:
  "pipeline (iplc_sim_process_pipeline_nop s) FETCH = zero_stage \<and>
   (shifts ops = 4 \<longrightarrow>
      pipeline (apply_ops (iplc_sim_process_pipeline_nop s) ops) WRITEBACK = zero_stage \<and>
      instruction_count (iplc_sim_push_pipeline_stage (apply_ops (iplc_sim_process_pipeline_nop s) ops)) =
        instruction_count (apply_ops (iplc_sim_process_pipeline_nop s) ops)) \<and>
   (iplc_sim_init (startup bpt) index blocksize assoc = Inr s0 \<longrightarrow>
      instruction_count (iplc_sim_finalize (apply_ops s0 run)) = of_nat (retiring run))"
proof -
  let ?n = "iplc_sim_process_pipeline_nop s"
  have 1: "pipeline ?n FETCH = zero_stage"
    by (rule nop_fetch_zero)
  have 2: "pipeline (apply_ops ?n ops) WRITEBACK = zero_stage \<and>
      instruction_count (iplc_sim_push_pipeline_stage (apply_ops ?n ops)) =
        instruction_count (apply_ops ?n ops)" if "shifts ops = 4"
  proof -
    from apply_ops_shift [of 0 ops ?n] that 1
    have "pipeline (apply_ops ?n ops) WRITEBACK = zero_stage"
      by (simp add: numeral_eq_Suc)
    then show ?thesis
      by (simp add: push_stage_fields zero_stage_def)
  qed
  have 3: "instruction_count (iplc_sim_finalize (apply_ops s0 run)) = of_nat (retiring run)"
    if "iplc_sim_init (startup bpt) index blocksize assoc = Inr s0"
  proof -
    have i: "instruction_count s0 = 0" "occupied s0 = 0" "addressed_not_nop s0"
      by (simp_all add: init_fields [OF that] startup_def globals0_def occupied_def
          addressed_not_nop_def zero_stage_def)
    let ?s = "apply_ops s0 run"
    note f = finalize_drained [of ?s]
    from apply_ops_addressed [OF i(3), of run] f have "occupied (iplc_sim_finalize ?s) = 0"
      by (simp add: all_nop_occupied)
    with f apply_ops_occupied [of s0 run] show ?thesis
      by (simp add: i)
  qed
  from 1 2 3 show ?thesis by blast
qed

theorem nop_never_retires_witness:
  "shifts [Push_lw 0x1004 1 (- 1) 0x2000, Advance, Probe 0x1008, Advance, Advance] = 4 \<and>
   pipeline (apply_ops (iplc_sim_process_pipeline_nop example_config)
      [Push_lw 0x1004 1 (- 1) 0x2000, Advance, Probe 0x1008, Advance, Advance]) WRITEBACK = zero_stage \<and>
   iplc_sim_init (startup 0) 1 1 2 = Inr example_config \<and>
   instruction_count (iplc_sim_finalize (apply_ops example_config
      [Push_nop 0x1000, Push_lw 0x1004 1 (- 1) 0x2000, Push_nop 0x1008])) = 1"
proof -
  have n: "shifts [Push_lw 0x1004 1 (- 1) 0x2000, Advance, Probe 0x1008, Advance, Advance] = 4"
    "retiring [Push_nop 0x1000, Push_lw 0x1004 1 (- 1) 0x2000, Push_nop 0x1008] = 1"
    by (simp_all add: shifts_def retiring_def)
  from nop_never_retires [of example_config
      "[Push_lw 0x1004 1 (- 1) 0x2000, Advance, Probe 0x1008, Advance, Advance]"
      0 1 1 2 example_config
      "[Push_nop 0x1000, Push_lw 0x1004 1 (- 1) 0x2000, Push_nop 0x1008]"] n example_init
  show ?thesis
    by (simp del: apply_ops_simps)
qed

section \<open>The trace of one nop\<close>

lemma quiet_push:
  assumes "pipeline s = (\<lambda>_. zero_stage)"
  shows "pipeline (iplc_sim_push_pipeline_stage s) = (\<lambda>_. zero_stage)"
    and "pipeline_cycles (iplc_sim_push_pipeline_stage s) = pipeline_cycles s + 1"
    and "instruction_count (iplc_sim_push_pipeline_stage s) = instruction_count s"
    and "cache_access (iplc_sim_push_pipeline_stage s) = cache_access s"
    and "cache_hit (iplc_sim_push_pipeline_stage s) = cache_hit s"
    and "cache_miss (iplc_sim_push_pipeline_stage s) = cache_miss s"
  using assms
  by (auto simp: iplc_sim_push_pipeline_stage_def Let_def zero_stage_def shift_stages_def
      split: pipeline_stages.splits)

lemma quiet_pushes:
  assumes "pipeline s = (\<lambda>_. zero_stage)"
  shows "pipeline ((iplc_sim_push_pipeline_stage ^^ n) s) = (\<lambda>_. zero_stage) \<and>
         pipeline_cycles ((iplc_sim_push_pipeline_stage ^^ n) s) = pipeline_cycles s + of_nat n \<and>
         instruction_count ((iplc_sim_push_pipeline_stage ^^ n) s) = instruction_count s \<and>
         cache_access ((iplc_sim_push_pipeline_stage ^^ n) s) = cache_access s \<and>
         cache_hit ((iplc_sim_push_pipeline_stage ^^ n) s) = cache_hit s \<and>
         cache_miss ((iplc_sim_push_pipeline_stage ^^ n) s) = cache_miss s"
proof (induction n)
  case 0
  with assms show ?case by simp
next
  case (Suc n)
  then have p: "pipeline ((iplc_sim_push_pipeline_stage ^^ n) s) = (\<lambda>_. zero_stage)"
    by simp
  from Suc show ?case
    by (simp add: quiet_push [OF p])
qed

lemma first_probe_misses:
  assumes "iplc_sim_init g index blocksize assoc = Inr s0" "0 \<le> index" "1 \<le> assoc"
    and "cache s = cache s0" "cache_index s = cache_index s0" "cache_assoc s = cache_assoc s0"
  shows "fst (iplc_sim_trap_address s a) = 0"
proof -
  from init_cache_ok [OF assms(1-3)] have ok: "cache_ok s"
    by (simp add: cache_ok_def assms(4-6))
  have "addr_index s a < length (cache s)"
    using ok addr_index_less [of s a] by (simp add: cache_ok_def)
  then have "cache s ! addr_index s a = initial_cache_set assoc"
    by (simp add: assms(4) init_fields [OF assms(1)])
  with sinv_initial [OF assms(3)] have "sinv (nat (cache_assoc s)) (cache s ! addr_index s a) []"
    by (simp add: assms(6) init_fields [OF assms(1)])
  from trap_address_sinv(2) [OF ok this] show ?thesis
    by (simp add: tags_of_def)
qed

lemma finalize_all_nop: "all_nop s \<Longrightarrow> iplc_sim_finalize s = s"
  by (simp add: iplc_sim_finalize.simps [of s])

lemma scan_nop_line:
  "scan_hex ''0x1000 nop'' = Some (0x1000, '' nop'')"
  "scan_word '' nop'' = Some (''nop'', [])"
  by code_simp+

lemma nop_line_dispatch:
  "\<not> has_prefix ''add'' ''nop''" "\<not> has_prefix ''sll'' ''nop''" "\<not> has_prefix ''ori'' ''nop''"
  "\<not> has_prefix ''lui'' ''nop''" "\<not> has_prefix ''lw'' ''nop''" "\<not> has_prefix ''sw'' ''nop''"
  "\<not> has_prefix ''beq'' ''nop''" "\<not> has_prefix ''jal'' ''nop''" "\<not> has_prefix ''jr'' ''nop''"
  "\<not> has_prefix ''j'' ''nop''" "\<not> has_prefix ''syscall'' ''nop''" "has_prefix ''nop'' ''nop''"
  by (simp_all add: has_prefix_def)

lemma nop_line_parse:
  assumes "iplc_sim_init (startup bpt) index blocksize assoc = Inr s0" "0 \<le> index" "1 \<le> assoc"
  shows "\<exists>s. iplc_sim_parse_instruction s0 ''0x1000 nop'' = Inr s \<and> all_nop s \<and>
           cache_access s = 1 \<and> cache_miss s = 1 \<and> cache_hit s = 0 \<and>
           instruction_count s = 0 \<and> pipeline_cycles s = 10"
proof -
  let ?s1 = "s0\<lparr>cur_instruction_address := 0x1000\<rparr>"
  let ?s2 = "snd (iplc_sim_trap_address ?s1 0x1000)"
  let ?s3 = "(iplc_sim_push_pipeline_stage ^^ (CACHE_MISS_DELAY - 1)) ?s2"
  let ?s4 = "iplc_sim_process_pipeline_nop ?s3"
  have miss: "fst (iplc_sim_trap_address ?s1 0x1000) = 0"
    by (rule first_probe_misses [OF assms]) simp_all
  then have p: "iplc_sim_parse_instruction s0 ''0x1000 nop'' = Inr ?s4"
    by (simp add: iplc_sim_parse_instruction_def scan_nop_line nop_line_dispatch split_beta Let_def)
  have i: "pipeline s0 = (\<lambda>_. zero_stage)" "cache_access s0 = 0" "cache_hit s0 = 0" "cache_miss s0 = 0"
    "instruction_count s0 = 0" "pipeline_cycles s0 = 0"
    by (simp_all add: init_fields [OF assms(1)] startup_def globals0_def)
  have s2: "pipeline ?s2 = (\<lambda>_. zero_stage)" "cache_access ?s2 = 1" "cache_hit ?s2 = 0"
    "cache_miss ?s2 = 1" "instruction_count ?s2 = 0" "pipeline_cycles ?s2 = 0"
    using miss by (simp_all add: trap_address_frame trap_address_counters i)
  note q = quiet_pushes [OF s2(1), of "CACHE_MISS_DELAY - 1"]
  from q have s3: "pipeline ?s3 = (\<lambda>_. zero_stage)" by blast
  note q4 = quiet_push [OF s3]
  have "all_nop ?s4"
    using q4(1) by (simp add: all_nop_def iplc_sim_process_pipeline_nop_def zero_stage_def)
  moreover have "cache_access ?s4 = 1 \<and> cache_miss ?s4 = 1 \<and> cache_hit ?s4 = 0 \<and>
      instruction_count ?s4 = 0 \<and> pipeline_cycles ?s4 = 10"
    using q q4 s2 by (simp add: iplc_sim_process_pipeline_nop_def CACHE_MISS_DELAY_def)
  ultimately show ?thesis
    using p by blast
qed

lemma init_10_1_1:
  "iplc_sim_init g 10 1 1 = Inl Cache_too_big"
  by (simp add: iplc_sim_init_def rint_log2_4 cache_size_of_def MAX_CACHE_SIZE_def)

lemma init_7_1_1:
  "\<exists>s0. iplc_sim_init g 7 1 1 = Inr s0"
  by (simp add: iplc_sim_init_def rint_log2_4 cache_size_of_def MAX_CACHE_SIZE_def)

lemma nop_trace_accepted:
  assumes "iplc_sim_init (startup bpt) index blocksize assoc = Inr s0" "0 \<le> index" "1 \<le> assoc"
  shows "\<exists>s. iplc_sim_main index blocksize assoc bpt [''0x1000 nop''] = Inr s \<and>
         cache_access s = 1 \<and> cache_miss s = 1 \<and> cache_hit s = 0 \<and>
         instruction_count s = 0 \<and> pipeline_cycles s = 10"
proof -
  from nop_line_parse [OF assms] obtain s where
    s: "iplc_sim_parse_instruction s0 ''0x1000 nop'' = Inr s" "all_nop s"
    "cache_access s = 1" "cache_miss s = 1" "cache_hit s = 0"
    "instruction_count s = 0" "pipeline_cycles s = 10"
    by blast
  then have "iplc_sim_main index blocksize assoc bpt [''0x1000 nop''] = Inr s"
    by (simp add: iplc_sim_main_def assms(1) finalize_all_nop)
  with s show ?thesis by blast
qed

text \<open>
  C4. The trace of the one line \<open>0x1000 nop\<close>, with branch prediction 0. The
  configuration \<open>I = 10\<close>, \<open>blocksize = 1\<close>, \<open>assoc = 1\<close> is refused by \<open>iplc_sim_init\<close>
  (its size \<open>1024 * 53 = 54272\<close> is above \<open>MAX_CACHE_SIZE\<close>), so the run ends before the
  line is read. In every configuration with \<open>I \<ge> 0\<close> and \<open>assoc \<ge> 1\<close> that
  \<open>iplc_sim_init\<close> accepts, the completed run (the line is parsed, then the pipeline
  is drained) ends with
  \<open>cache_access = 1\<close>, \<open>cache_miss = 1\<close>, \<open>cache_hit = 0\<close>, \<open>instruction_count = 0\<close> and
  \<open>pipeline_cycles = 10\<close>: nine advances for the miss of the instruction address and
  one for the push of the \<open>nop\<close>, which leaves every stage a \<open>NOP\<close>, so that
  \<open>iplc_sim_finalize\<close> has nothing to drain and nothing retires.
\<close>

theorem nop_trace_run:
  "iplc_sim_main 10 1 1 0 [''0x1000 nop''] = Inl Cache_too_big \<and>
   (iplc_sim_init (startup bpt) index blocksize assoc = Inr s0 \<and> 0 \<le> index \<and> 1 \<le> assoc \<longrightarrow>
      (\<exists>s. iplc_sim_main index blocksize assoc bpt [''0x1000 nop''] = Inr s \<and>
         cache_access s = 1 \<and> cache_miss s = 1 \<and> cache_hit s = 0 \<and>
         instruction_count s = 0 \<and> pipeline_cycles s = 10))"
  using nop_trace_accepted [of bpt index blocksize assoc s0]
  by (simp add: iplc_sim_main_def init_10_1_1)

theorem nop_trace_run_witness:
  "iplc_sim_init (startup 0) 1 1 2 = Inr example_config \<and>
   (\<exists>s. iplc_sim_main 1 1 2 0 [''0x1000 nop''] = Inr s \<and>
      cache_access s = 1 \<and> cache_miss s = 1 \<and> cache_hit s = 0 \<and>
      instruction_count s = 0 \<and> pipeline_cycles s = 10)"
  using nop_trace_run [of 0 1 1 2 example_config] example_init
  by simp

text \<open>
  The configuration of the scenario is refused; in the largest accepted configuration
  with \<open>blocksize = 1\<close> and \<open>assoc = 1\<close>, which is \<open>I = 7\<close>, the run ends with no instruction
  counted and 10 cycles.
\<close>

theorem nop_trace_counterexample:
  "iplc_sim_main 10 1 1 0 [''0x1000 nop''] = Inl Cache_too_big \<and>
   map_sum id instruction_count (iplc_sim_main 7 1 1 0 [''0x1000 nop'']) = Inr 0 \<and>
   map_sum id pipeline_cycles (iplc_sim_main 7 1 1 0 [''0x1000 nop'']) = Inr 10"
proof -
  from init_7_1_1 [of "startup 0"] obtain s0 where "iplc_sim_init (startup 0) 7 1 1 = Inr s0" ..
  from nop_trace_accepted [OF this] obtain s where
    "iplc_sim_main 7 1 1 0 [''0x1000 nop''] = Inr s" "instruction_count s = 0" "pipeline_cycles s = 10"
    by auto
  then show ?thesis
    by (simp add: iplc_sim_main_def init_10_1_1)
qed

section \<open>The size check of the initialisation\<close>



















end
